theory Spec2Isabelle
  imports Main
begin

section \<open>JavaScript values\<close>

text \<open>
  Both chat front ends of the repository (\<^verbatim>\<open>frontend/src/App.jsx\<close> and
  \<^verbatim>\<open>frontend/assets/app.jsx\<close>) consume the server's event stream: every frame is
  handed to \<^verbatim>\<open>JSON.parse\<close> and the fields of the parsed value are read. A parsed
  value is a \<open>json\<close>; a JavaScript value that may also be \<^verbatim>\<open>undefined\<close> is a
  \<open>jsval\<close>, with \<open>None\<close> for \<^verbatim>\<open>undefined\<close>. Numbers are restricted to integers and
  strings to 8-bit code units.
\<close>

datatype json =
    JNull
  | JBool bool
  | JNum int
  | JStr string
  | JArr "json list"
  | JObj "(string \<times> json) list"

type_synonym jsval = "json option"

text \<open>
  \<^verbatim>\<open>JSON.parse\<close> is library code: it is a parameter of the model. \<open>None\<close> is the
  \<^verbatim>\<open>SyntaxError\<close> it throws.
\<close>

type_synonym parser = "string \<Rightarrow> json option"

text \<open>
  Reading a property \<^verbatim>\<open>event.k\<close> of a parsed value other than \<^verbatim>\<open>null\<close>. The keys the
  program reads (\<^verbatim>\<open>type\<close>, \<^verbatim>\<open>name\<close>, \<^verbatim>\<open>args\<close>, \<^verbatim>\<open>item_count\<close>, \<^verbatim>\<open>data_quality\<close>,
  \<^verbatim>\<open>content\<close>, \<^verbatim>\<open>message\<close>) are properties of parsed objects only; on booleans,
  numbers, strings and arrays the read gives \<^verbatim>\<open>undefined\<close>. On \<^verbatim>\<open>null\<close> the read
  throws, which the callers below write out. A parsed object holds each key once.
\<close>

fun getprop :: "json \<Rightarrow> string \<Rightarrow> jsval" where
  "getprop (JObj kvs) k = map_of kvs k"
| "getprop _ k = None"

text \<open>Truthiness, as tested by \<^verbatim>\<open>if (v)\<close>, \<^verbatim>\<open>!v\<close> and \<^verbatim>\<open>v || d\<close>.\<close>

fun truthy :: "jsval \<Rightarrow> bool" where
  "truthy None = False"
| "truthy (Some JNull) = False"
| "truthy (Some (JBool b)) = b"
| "truthy (Some (JNum i)) = (i \<noteq> 0)"
| "truthy (Some (JStr s)) = (s \<noteq> [])"
| "truthy (Some (JArr xs)) = True"
| "truthy (Some (JObj kvs)) = True"

definition or_default :: "jsval \<Rightarrow> jsval \<Rightarrow> jsval" where
  "or_default v d = (if truthy v then v else d)"

definition nullish :: "jsval \<Rightarrow> jsval \<Rightarrow> jsval" where
  "nullish v d = (if v = None \<or> v = Some JNull then d else v)"

text \<open>
  Strict equality \<^verbatim>\<open>a === b\<close> between a value stored from one parsed frame and a value
  of another: primitives compare by value, while two arrays or objects that come from
  different calls of \<^verbatim>\<open>JSON.parse\<close> are different objects and never equal.
\<close>

fun strict_eq :: "jsval \<Rightarrow> jsval \<Rightarrow> bool" where
  "strict_eq None None = True"
| "strict_eq (Some JNull) (Some JNull) = True"
| "strict_eq (Some (JBool a)) (Some (JBool b)) = (a = b)"
| "strict_eq (Some (JNum a)) (Some (JNum b)) = (a = b)"
| "strict_eq (Some (JStr a)) (Some (JStr b)) = (a = b)"
| "strict_eq _ _ = False"

text \<open>String conversion, as done by a template literal \<^verbatim>\<open>`${v}`\<close>.\<close>

fun show_nat :: "nat \<Rightarrow> string" where
  "show_nat n =
     (if n < 10 then [char_of (48 + n)]
      else show_nat (n div 10) @ [char_of (48 + n mod 10)])"

declare show_nat.simps [simp del]

definition show_int :: "int \<Rightarrow> string" where
  "show_int i = (if i < 0 then CHR ''-'' # show_nat (nat (- i)) else show_nat (nat i))"

fun join_comma :: "string list \<Rightarrow> string" where
  "join_comma [] = []"
| "join_comma [s] = s"
| "join_comma (s # t # ss) = s @ CHR '','' # join_comma (t # ss)"

fun js_string_json :: "json \<Rightarrow> string" where
  "js_string_json JNull = ''null''"
| "js_string_json (JBool b) = (if b then ''true'' else ''false'')"
| "js_string_json (JNum i) = show_int i"
| "js_string_json (JStr s) = s"
| "js_string_json (JArr xs) =
     join_comma (map (\<lambda>x. if x = JNull then [] else js_string_json x) xs)"
| "js_string_json (JObj kvs) = ''[object Object]''"

definition js_string :: "jsval \<Rightarrow> string" where
  "js_string v = (case v of None \<Rightarrow> ''undefined'' | Some j \<Rightarrow> js_string_json j)"

subsection \<open>Strings\<close>

text \<open>
  \<^verbatim>\<open>String.prototype.trim\<close> removes white space and line terminators from both ends;
  among 8-bit code units these are TAB, LF, VT, FF, CR, SPACE and NBSP.
\<close>

definition is_space :: "char \<Rightarrow> bool" where
  "is_space c = (of_char c \<in> {9, 10, 11, 12, 13, 32, 160 :: nat})"

definition trim :: "string \<Rightarrow> string" where
  "trim s = rev (dropWhile is_space (rev (dropWhile is_space s)))"

definition startsWith :: "string \<Rightarrow> string \<Rightarrow> bool" where
  "startsWith s p = (take (length p) s = p)"

text \<open>
  \<^verbatim>\<open>buffer.split("\n")\<close>: the pieces between line feeds; never empty, the last piece
  is the text after the last line feed.
\<close>

fun split_lines :: "string \<Rightarrow> string list" where
  "split_lines [] = [[]]"
| "split_lines (c # cs) =
     (if c = CHR 0x0A then [] # split_lines cs
      else (case split_lines cs of
              [] \<Rightarrow> [[c]]
            | l # ls \<Rightarrow> (c # l) # ls))"

text \<open>\<^verbatim>\<open>a.slice(-n)\<close>: the last \<open>n\<close> elements, or all of them when there are fewer.\<close>

definition slice_last :: "nat \<Rightarrow> 'a list \<Rightarrow> 'a list" where
  "slice_last n xs = drop (length xs - n) xs"

text \<open>
  \<^verbatim>\<open>a.findIndex(p)\<close>: the index of the first element that satisfies \<open>p\<close>, \<open>-1\<close>
  when there is none.
\<close>

fun findIndex_from :: "int \<Rightarrow> ('a \<Rightarrow> bool) \<Rightarrow> 'a list \<Rightarrow> int" where
  "findIndex_from i p [] = - 1"
| "findIndex_from i p (x # xs) = (if p x then i else findIndex_from (i + 1) p xs)"

definition findIndex :: "('a \<Rightarrow> bool) \<Rightarrow> 'a list \<Rightarrow> int" where
  "findIndex p xs = findIndex_from 0 p xs"

section \<open>State of the chat component\<close>

text \<open>
  Identifiers. \<^verbatim>\<open>App.jsx\<close> names the two messages of a turn \<^verbatim>\<open>u-${Date.now()}\<close> and
  \<^verbatim>\<open>a-${Date.now()}\<close>; trace entries (\<^verbatim>\<open>tc-${Date.now()}-${Math.random()}\<close>) and
  everything \<^verbatim>\<open>createId()\<close> names in \<^verbatim>\<open>assets/app.jsx\<close> get a generated identifier,
  drawn from the counter \<open>idgen\<close> of the state.
\<close>

datatype ident = UserId nat | AssistantId nat | GenId nat

text \<open>An entry of the conversation history: \<^verbatim>\<open>{ role, content }\<close>.\<close>

record entry =
  role :: string
  content :: jsval

text \<open>
  A chat message extends it. \<^verbatim>\<open>pending\<close> and \<^verbatim>\<open>error\<close> exist in \<^verbatim>\<open>App.jsx\<close> only
  (absent reads as false); the \<^verbatim>\<open>timestamp\<close> of \<^verbatim>\<open>assets/app.jsx\<close> is display data and
  left out.
\<close>

record msg = entry +
  id_m :: ident
  pending :: bool
  error :: bool

text \<open>
  A trace entry. \<^verbatim>\<open>App.jsx\<close> writes \<^verbatim>\<open>id, type, name, args, resolved\<close> and later
  \<^verbatim>\<open>itemCount, dataQuality\<close>; \<^verbatim>\<open>assets/app.jsx\<close> writes \<^verbatim>\<open>id, type, name, args,
  resolved\<close>, \<^verbatim>\<open>item_count\<close> (field \<open>itemCount\<close> here) and \<^verbatim>\<open>message\<close>. A property an
  entry does not have is \<open>None\<close>, and \<open>False\<close> for \<open>resolved\<close>, which the code only
  tests for truth.
\<close>

record trace =
  id_t :: ident
  type :: string
  name :: jsval
  args :: jsval
  resolved :: bool
  itemCount :: jsval
  dataQuality :: jsval
  message :: jsval

text \<open>
  Arrays of history entries live in a store, so that replacing an array and changing
  one in place are different things: an address is an index into \<open>heap\<close>, allocation
  appends. \<open>historyRef\<close> is \<^verbatim>\<open>historyRef.current\<close> of \<^verbatim>\<open>App.jsx\<close> and the state
  variable \<^verbatim>\<open>history\<close> of \<^verbatim>\<open>assets/app.jsx\<close>. \<open>runState\<close>, \<open>leftOpen\<close> and
  \<open>rightOpen\<close> exist in \<^verbatim>\<open>assets/app.jsx\<close> only.
\<close>

type_synonym addr = nat

record ui_state =
  heap :: "entry list list"
  historyRef :: addr
  messages :: "msg list"
  traces :: "trace list"
  input :: string
  streaming :: bool
  runState :: string
  leftOpen :: bool
  rightOpen :: bool
  idgen :: nat

definition deref :: "entry list list \<Rightarrow> addr \<Rightarrow> entry list" where
  "deref h a = (if a < length h then h ! a else [])"

definition alloc :: "entry list list \<Rightarrow> entry list \<Rightarrow> entry list list \<times> addr" where
  "alloc h xs = (h @ [xs], length h)"

text \<open>The state after the first render: \<^verbatim>\<open>useState([])\<close>, \<^verbatim>\<open>useRef([])\<close>.\<close>

definition initial :: ui_state where
  "initial = \<lparr>heap = [[]], historyRef = 0, messages = [], traces = [], input = [],
     streaming = False, runState = ''Idle'', leftOpen = False, rightOpen = False,
     idgen = 0\<rparr>"

text \<open>
  What the network gives back: \<^verbatim>\<open>fetch\<close> rejects, or resolves to a response with
  \<^verbatim>\<open>ok\<close>, \<^verbatim>\<open>status\<close> and a body (absent, or the chunks \<^verbatim>\<open>reader.read()\<close> yields, decoded,
  and how the stream ends: closed, or a rejected read).
\<close>

datatype stream_end = EndOfStream | ReadRejected string

datatype response = Response (ok: bool) (status: nat) (body: "(string list \<times> stream_end) option")

datatype fetch_outcome = FetchRejected string | FetchResolved response

text \<open>The body of a request: \<^verbatim>\<open>JSON.stringify({ message, history })\<close>.\<close>

record request =
  req_message :: string
  req_history :: "entry list"

section \<open>frontend/src/App.jsx\<close>

text \<open>
  The local variables of \<^verbatim>\<open>sendMessage\<close> that the stream loop changes, with the
  component state.
\<close>

record locals =
  ui :: ui_state
  finalContent :: jsval
  doneSignal :: bool

text \<open>
  The \<^verbatim>\<open>tool_result\<close> case: \<^verbatim>\<open>prev.map(t => ...)\<close> with the flag \<^verbatim>\<open>patched\<close> of the
  enclosing closure, which the callback sets at the first entry it rewrites.
\<close>

fun patch_map :: "json \<Rightarrow> bool \<Rightarrow> trace list \<Rightarrow> trace list" where
  "patch_map event patched [] = []"
| "patch_map event patched (t # ts) =
     (if \<not> patched \<and> strict_eq (name t) (getprop event ''name'') \<and> type t = ''call''
         \<and> \<not> resolved t
      then t\<lparr>resolved := True,
             itemCount := getprop event ''item_count'',
             dataQuality := getprop event ''data_quality''\<rparr> # patch_map event True ts
      else t # patch_map event patched ts)"

text \<open>\<^verbatim>\<open>prev.map(m => m.id === assistantId ? f(m) : m)\<close>.\<close>

definition map_assistant :: "ident \<Rightarrow> (msg \<Rightarrow> msg) \<Rightarrow> msg list \<Rightarrow> msg list" where
  "map_assistant assistantId f ms = map (\<lambda>m. if id_m m = assistantId then f m else m) ms"

text \<open>The \<^verbatim>\<open>switch (event.type)\<close>, for an event that is not \<^verbatim>\<open>null\<close>.\<close>

definition switch_event :: "ident \<Rightarrow> json \<Rightarrow> locals \<Rightarrow> locals" where
  "switch_event assistantId event L =
     (let ty = getprop event ''type''; st = ui L in
      if ty = Some (JStr ''tool_call'') then
        L\<lparr>ui := st\<lparr>traces := traces st @
              [\<lparr>id_t = GenId (idgen st), type = ''call'', name = getprop event ''name'',
                args = nullish (getprop event ''args'') (Some (JObj [])),
                resolved = False, itemCount = None, dataQuality = None, message = None\<rparr>],
            idgen := Suc (idgen st)\<rparr>\<rparr>
      else if ty = Some (JStr ''tool_result'') then
        L\<lparr>ui := st\<lparr>traces := patch_map event False (traces st)\<rparr>\<rparr>
      else if ty = Some (JStr ''message'') then
        L\<lparr>finalContent := getprop event ''content'',
          ui := st\<lparr>messages := map_assistant assistantId
                  (\<lambda>m. m\<lparr>content := getprop event ''content'', pending := False\<rparr>)
                  (messages st)\<rparr>\<rparr>
      else if ty = Some (JStr ''error'') then
        L\<lparr>ui := st\<lparr>messages := map_assistant assistantId
                  (\<lambda>m. m\<lparr>content := Some (JStr (''**Error:** '' @ js_string (getprop event ''message''))),
                         pending := False, error := True\<rparr>)
                  (messages st)\<rparr>\<rparr>
      else if ty = Some (JStr ''done'') then L\<lparr>doneSignal := True\<rparr>
      else L)"

text \<open>
  The \<^verbatim>\<open>try { ... } catch { }\<close> around one frame: a \<^verbatim>\<open>SyntaxError\<close> of \<^verbatim>\<open>JSON.parse\<close>
  and the \<^verbatim>\<open>TypeError\<close> of reading \<^verbatim>\<open>null.type\<close> are both swallowed.
\<close>

definition try_frame :: "parser \<Rightarrow> ident \<Rightarrow> string \<Rightarrow> locals \<Rightarrow> locals" where
  "try_frame P assistantId line L =
     (case P (drop 6 line) of
        None \<Rightarrow> L
      | Some event \<Rightarrow> if event = JNull then L else switch_event assistantId event L)"

text \<open>\<^verbatim>\<open>for (const line of lines)\<close>, left by \<^verbatim>\<open>break\<close> once \<^verbatim>\<open>doneSignal\<close> is set.\<close>

fun for_lines :: "parser \<Rightarrow> ident \<Rightarrow> string list \<Rightarrow> locals \<Rightarrow> locals" where
  "for_lines P assistantId [] L = L"
| "for_lines P assistantId (line # rest) L =
     (if \<not> startsWith line ''data: '' then for_lines P assistantId rest L
      else (let L' = try_frame P assistantId line L
            in if doneSignal L' then L' else for_lines P assistantId rest L'))"

text \<open>
  \<^verbatim>\<open>while (!doneSignal)\<close>: one iteration per chunk. The result carries the locals and,
  when \<^verbatim>\<open>reader.read()\<close> rejects, the message of the error thrown; what the loop
  changed before stays changed.
\<close>

fun read_loop ::
  "parser \<Rightarrow> ident \<Rightarrow> string list \<Rightarrow> stream_end \<Rightarrow> string \<Rightarrow> locals \<Rightarrow> locals \<times> string option"
where
  "read_loop P assistantId [] e buffer L =
     (if doneSignal L then (L, None)
      else (case e of EndOfStream \<Rightarrow> (L, None) | ReadRejected m \<Rightarrow> (L, Some m)))"
| "read_loop P assistantId (v # rest) e buffer L =
     (if doneSignal L then (L, None)
      else (let lines = split_lines (buffer @ v)
            in read_loop P assistantId rest e (last lines)
                 (for_lines P assistantId (butlast lines) L)))"

text \<open>
  The history update: the array literal \<^verbatim>\<open>[...old, user, assistant]\<close> is a new array,
  and \<^verbatim>\<open>.slice(-n)\<close> of it another one, which the reference is set to.
\<close>

definition append_and_slice :: "nat \<Rightarrow> string \<Rightarrow> jsval \<Rightarrow> ui_state \<Rightarrow> ui_state" where
  "append_and_slice n msgText reply st =
     (let (h1, a1) = alloc (heap st)
            (deref (heap st) (historyRef st) @
               [\<lparr>role = ''user'', content = Some (JStr msgText)\<rparr>,
                \<lparr>role = ''assistant'', content = reply\<rparr>]);
          (h2, a2) = alloc h1 (slice_last n (deref h1 a1))
      in st\<lparr>heap := h2, historyRef := a2\<rparr>)"

text \<open>
  The \<^verbatim>\<open>try\<close> block of \<^verbatim>\<open>sendMessage\<close>: the \<^verbatim>\<open>fetch\<close>, the check of \<^verbatim>\<open>res.ok\<close>,
  \<^verbatim>\<open>res.body.getReader()\<close> (a \<^verbatim>\<open>TypeError\<close> without a body, whose text is the
  engine's; a fixed text stands for it) and the stream loop.
\<close>

definition try_block ::
  "parser \<Rightarrow> ident \<Rightarrow> fetch_outcome \<Rightarrow> locals \<Rightarrow> locals \<times> string option"
where
  "try_block P assistantId net L0 =
     (case net of
        FetchRejected m \<Rightarrow> (L0, Some m)
      | FetchResolved res \<Rightarrow>
          if \<not> ok res then (L0, Some (''Server error '' @ show_nat (status res)))
          else (case body res of
                  None \<Rightarrow> (L0, Some ''res.body is null'')
                | Some (chunks, e) \<Rightarrow> read_loop P assistantId chunks e [] L0))"

definition catch_block :: "ident \<Rightarrow> string \<Rightarrow> ui_state \<Rightarrow> ui_state" where
  "catch_block assistantId m st =
     st\<lparr>messages := map_assistant assistantId
          (\<lambda>m'. m'\<lparr>content := Some (JStr (''**Connection error:** '' @ m)),
                   pending := False, error := True\<rparr>)
          (messages st)\<rparr>"

definition finally_block :: "string \<Rightarrow> jsval \<Rightarrow> ui_state \<Rightarrow> ui_state" where
  "finally_block msgText final st =
     (let st' = st\<lparr>streaming := False,
                   messages := map (\<lambda>m. if pending m then m\<lparr>pending := False\<rparr> else m)
                                 (messages st)\<rparr>
      in if truthy final then append_and_slice 40 msgText final st' else st')"

text \<open>
  What \<^verbatim>\<open>sendMessage\<close> does between its guard and the \<^verbatim>\<open>try\<close>: the flag
  \<^verbatim>\<open>streaming\<close> is set, the input and the traces are cleared, the user's message and
  a pending assistant message are appended, and the locals are initialised. \<open>now\<close> is
  the value of \<^verbatim>\<open>Date.now()\<close>.
\<close>

definition turn_start :: "nat \<Rightarrow> string \<Rightarrow> ui_state \<Rightarrow> locals" where
  "turn_start now msgText st =
     \<lparr>ui = st\<lparr>streaming := True, input := [], traces := [],
               messages := messages st @
                 [\<lparr>role = ''user'', content = Some (JStr msgText),
                   id_m = UserId now, pending = False, error = False\<rparr>,
                  \<lparr>role = ''assistant'', content = Some (JStr []),
                   id_m = AssistantId now, pending = True, error = False\<rparr>]\<rparr>,
      finalContent = Some (JStr []), doneSignal = False\<rparr>"

text \<open>
  \<^verbatim>\<open>sendMessage(text)\<close>; \<open>net\<close> is what the network does with the request. The
  result is the new state and the requests issued.
\<close>

definition sendMessage ::
  "parser \<Rightarrow> nat \<Rightarrow> fetch_outcome \<Rightarrow> string \<Rightarrow> ui_state \<Rightarrow> ui_state \<times> request list"
where
  "sendMessage P now net text st =
     (let msgText = trim text in
      if msgText = [] \<or> streaming st then (st, [])
      else
        (let assistantId = AssistantId now;
             L0 = turn_start now msgText st;
             req = \<lparr>req_message = msgText,
                    req_history = deref (heap st) (historyRef st)\<rparr>;
             (L1, thrown) = try_block P assistantId net L0;
             st2 = (case thrown of
                      None \<Rightarrow> ui L1
                    | Some m \<Rightarrow> catch_block assistantId m (ui L1))
         in (finally_block msgText (finalContent L1) st2, [req])))"

section \<open>frontend/assets/app.jsx\<close>

record assets_locals =
  ui_a :: ui_state
  assistantReply :: jsval
  hadError :: bool

definition addTraceCall :: "json \<Rightarrow> ui_state \<Rightarrow> ui_state" where
  "addTraceCall event st =
     st\<lparr>traces := traces st @
          [\<lparr>id_t = GenId (idgen st), type = ''tool_call'',
            name = or_default (getprop event ''name'') (Some (JStr ''unknown_tool'')),
            args = or_default (getprop event ''args'') (Some (JObj [])),
            resolved = False, itemCount = None, dataQuality = None, message = None\<rparr>],
        idgen := Suc (idgen st)\<rparr>"

text \<open>
  \<^verbatim>\<open>addTraceResult\<close>: \<^verbatim>\<open>next\<close> is a copy of the trace list; the search runs over the
  reversed copy, and \<^verbatim>\<open>next.length - 1 - index\<close> turns the index found there back into
  an index of \<^verbatim>\<open>next\<close>. Without a match a \<^verbatim>\<open>tool_result\<close> entry is pushed.
\<close>

definition addTraceResult :: "json \<Rightarrow> ui_state \<Rightarrow> ui_state" where
  "addTraceResult event st =
     (let next = traces st;
          index = findIndex
            (\<lambda>item. type item = ''tool_call'' \<and> \<not> resolved item
               \<and> strict_eq (name item) (getprop event ''name''))
            (rev next)
      in if index \<noteq> - 1 then
           (let targetIndex = nat (int (length next) - 1 - index)
            in st\<lparr>traces := next[targetIndex := (next ! targetIndex)
                   \<lparr>resolved := True,
                    itemCount := or_default (getprop event ''item_count'') (Some (JNum 0))\<rparr>]\<rparr>)
         else
           st\<lparr>traces := next @
                [\<lparr>id_t = GenId (idgen st), type = ''tool_result'',
                  name = or_default (getprop event ''name'') (Some (JStr ''unknown_tool'')),
                  args = None, resolved = False,
                  itemCount = or_default (getprop event ''item_count'') (Some (JNum 0)),
                  dataQuality = None, message = None\<rparr>],
              idgen := Suc (idgen st)\<rparr>)"

definition addTraceError :: "json \<Rightarrow> ui_state \<Rightarrow> ui_state" where
  "addTraceError event st =
     st\<lparr>traces := traces st @
          [\<lparr>id_t = GenId (idgen st), type = ''error'',
            name = Some (JStr ''Runtime error''), args = None, resolved = False,
            itemCount = None, dataQuality = None,
            message = or_default (getprop event ''message'') (Some (JStr ''Unknown error''))\<rparr>],
        idgen := Suc (idgen st)\<rparr>"

definition pushUserMessage :: "string \<Rightarrow> ui_state \<Rightarrow> ui_state" where
  "pushUserMessage text st =
     st\<lparr>messages := messages st @
          [\<lparr>role = ''user'', content = Some (JStr text), id_m = GenId (idgen st),
            pending = False, error = False\<rparr>],
        idgen := Suc (idgen st)\<rparr>"

definition pushAssistantMessage :: "jsval \<Rightarrow> ui_state \<Rightarrow> ui_state" where
  "pushAssistantMessage text st =
     st\<lparr>messages := messages st @
          [\<lparr>role = ''assistant'', content = text, id_m = GenId (idgen st),
            pending = False, error = False\<rparr>],
        idgen := Suc (idgen st)\<rparr>"

text \<open>
  The body of \<^verbatim>\<open>for (const line of lines)\<close>. Only \<^verbatim>\<open>JSON.parse\<close> is inside a
  \<^verbatim>\<open>try\<close>: reading \<^verbatim>\<open>event.type\<close> of a parsed \<^verbatim>\<open>null\<close> throws out of the loop (a
  \<^verbatim>\<open>TypeError\<close>; a fixed text stands for the engine's). The \<^verbatim>\<open>done\<close> branch has no
  \<^verbatim>\<open>break\<close>.
\<close>

definition assets_frame ::
  "parser \<Rightarrow> string \<Rightarrow> assets_locals \<Rightarrow> assets_locals \<times> string option"
where
  "assets_frame P line L =
     (if \<not> startsWith line ''data: '' then (L, None)
      else (let raw = trim (drop 6 line) in
        if raw = [] then (L, None)
        else (case P raw of
                None \<Rightarrow> (L, None)
              | Some event \<Rightarrow>
                  if event = JNull then (L, Some ''event is null'')
                  else (let ty = getprop event ''type''; st = ui_a L in
                    if ty = Some (JStr ''tool_call'') then
                      (L\<lparr>ui_a := (addTraceCall event st)\<lparr>runState := ''Thinking''\<rparr>\<rparr>, None)
                    else if ty = Some (JStr ''tool_result'') then
                      (L\<lparr>ui_a := (addTraceResult event st)\<lparr>runState := ''Thinking''\<rparr>\<rparr>, None)
                    else if ty = Some (JStr ''message'') then
                      (let reply = or_default (getprop event ''content'') (Some (JStr []))
                       in (L\<lparr>assistantReply := reply,
                             ui_a := (pushAssistantMessage reply st)\<lparr>runState := ''Streaming''\<rparr>\<rparr>,
                           None))
                    else if ty = Some (JStr ''error'') then
                      (L\<lparr>hadError := True,
                         ui_a := (pushAssistantMessage
                             (Some (JStr (''**Error:** '' @ js_string
                                (or_default (getprop event ''message'')
                                   (Some (JStr ''Unknown error''))))))
                             (addTraceError event st))\<lparr>runState := ''Error''\<rparr>\<rparr>, None)
                    else if ty = Some (JStr ''done'') then
                      (if \<not> hadError L then L\<lparr>ui_a := st\<lparr>runState := ''Idle''\<rparr>\<rparr> else L, None)
                    else (L, None)))))"

fun assets_lines ::
  "parser \<Rightarrow> string list \<Rightarrow> assets_locals \<Rightarrow> assets_locals \<times> string option"
where
  "assets_lines P [] L = (L, None)"
| "assets_lines P (line # rest) L =
     (case assets_frame P line L of
        (L', None) \<Rightarrow> assets_lines P rest L'
      | (L', Some m) \<Rightarrow> (L', Some m))"

text \<open>\<^verbatim>\<open>while (true)\<close>, left when the stream ends or something throws.\<close>

fun assets_read_loop ::
  "parser \<Rightarrow> string list \<Rightarrow> stream_end \<Rightarrow> string \<Rightarrow> assets_locals
     \<Rightarrow> assets_locals \<times> string option"
where
  "assets_read_loop P [] e buffer L =
     (case e of EndOfStream \<Rightarrow> (L, None) | ReadRejected m \<Rightarrow> (L, Some m))"
| "assets_read_loop P (v # rest) e buffer L =
     (let lines = split_lines (buffer @ v)
      in (case assets_lines P (butlast lines) L of
            (L', None) \<Rightarrow> assets_read_loop P rest e (last lines) L'
          | (L', Some m) \<Rightarrow> (L', Some m)))"

text \<open>The \<^verbatim>\<open>try\<close> block and the \<^verbatim>\<open>catch\<close> block of \<^verbatim>\<open>sendMessage\<close>.\<close>

definition assets_try_block ::
  "parser \<Rightarrow> fetch_outcome \<Rightarrow> assets_locals \<Rightarrow> assets_locals \<times> string option"
where
  "assets_try_block P net L0 =
     (case net of
        FetchRejected m \<Rightarrow> (L0, Some m)
      | FetchResolved res \<Rightarrow>
          if \<not> ok res then (L0, Some (''HTTP '' @ show_nat (status res)))
          else (case body res of
                  None \<Rightarrow> (L0, Some ''No response stream from server'')
                | Some (chunks, e) \<Rightarrow> assets_read_loop P chunks e [] L0))"

definition assets_catch_block :: "string \<Rightarrow> assets_locals \<Rightarrow> assets_locals" where
  "assets_catch_block m L =
     L\<lparr>hadError := True,
       ui_a := (pushAssistantMessage (Some (JStr (''**Connection error:** '' @ m)))
                  (addTraceError (JObj [(''message'', JStr m)]) (ui_a L)))
               \<lparr>runState := ''Error''\<rparr>\<rparr>"

text \<open>
  What \<^verbatim>\<open>sendMessage\<close> does between its guard and the \<^verbatim>\<open>try\<close>; \<open>isCompact\<close> is the
  media query of the render.
\<close>

definition assets_turn_start :: "bool \<Rightarrow> string \<Rightarrow> ui_state \<Rightarrow> assets_locals" where
  "assets_turn_start isCompact text st =
     (let st1 = pushUserMessage text
                  (st\<lparr>streaming := True, runState := ''Thinking'', input := [],
                      traces := []\<rparr>)
      in \<lparr>ui_a = (if isCompact then st1\<lparr>leftOpen := False, rightOpen := False\<rparr> else st1),
          assistantReply = Some (JStr []), hadError = False\<rparr>)"

text \<open>The end of \<^verbatim>\<open>sendMessage\<close>, after the \<^verbatim>\<open>try\<close> statement.\<close>

definition assets_turn_end :: "string \<Rightarrow> assets_locals \<Rightarrow> ui_state" where
  "assets_turn_end text L =
     (let st3 = (if truthy (assistantReply L)
                 then append_and_slice 20 text (assistantReply L) (ui_a L)
                 else ui_a L);
          st4 = (if \<not> hadError L then st3\<lparr>runState := ''Idle''\<rparr> else st3)
      in st4\<lparr>streaming := False\<rparr>)"

text \<open>\<^verbatim>\<open>sendMessage(override)\<close>; \<open>None\<close> is a call without argument.\<close>

definition assets_sendMessage ::
  "parser \<Rightarrow> bool \<Rightarrow> fetch_outcome \<Rightarrow> string option \<Rightarrow> ui_state \<Rightarrow> ui_state \<times> request list"
where
  "assets_sendMessage P isCompact net override st =
     (let text = trim (case override of None \<Rightarrow> input st | Some s \<Rightarrow> s) in
      if text = [] \<or> streaming st then (st, [])
      else
        (let L0 = assets_turn_start isCompact text st;
             req = \<lparr>req_message = text, req_history = deref (heap st) (historyRef st)\<rparr>;
             (L1, thrown) = assets_try_block P net L0;
             L2 = (case thrown of None \<Rightarrow> L1 | Some m \<Rightarrow> assets_catch_block m L1)
         in (assets_turn_end text L2, [req])))"

section \<open>Turns as asynchronous calls\<close>

text \<open>
  \<^verbatim>\<open>sendMessage\<close> is an \<^verbatim>\<open>async\<close> function: it runs up to an \<^verbatim>\<open>await\<close> (of \<^verbatim>\<open>fetch\<close>, then
  of each \<^verbatim>\<open>reader.read()\<close>), and other handlers of the component, a click on
  "New conversation" or another call of \<^verbatim>\<open>sendMessage\<close>, can run before it goes on. The
  functions above are one call run to its end without anything in between. Here a call
  is a task: what it keeps between two of its steps is its text, its assistant
  identifier (\<^verbatim>\<open>App.jsx\<close>), its buffer, its reply (\<^verbatim>\<open>finalContent\<close> or
  \<^verbatim>\<open>assistantReply\<close>) and its flag (\<^verbatim>\<open>doneSignal\<close> or \<^verbatim>\<open>hadError\<close>). Every state setter
  of a step acts on the state the component has at that moment
  (\<^verbatim>\<open>setTraces(prev => ...)\<close>).
\<close>

datatype phase = Fetching | Reading | Finished

record task =
  t_text :: string
  t_aid :: ident
  t_phase :: phase
  t_buffer :: string
  t_reply :: jsval
  t_flag :: bool

record sys =
  s_ui :: ui_state
  tasks :: "task list"
  requests :: "request list"

definition sys_init :: sys where
  "sys_init = \<lparr>s_ui = initial, tasks = [], requests = []\<rparr>"

text \<open>
  What happens, one handler or one resumption at a time: a call of \<^verbatim>\<open>sendMessage\<close>
  with its arguments, a click on "New conversation", the \<^verbatim>\<open>fetch\<close> of task \<open>i\<close>
  settling (rejected, or a response with \<^verbatim>\<open>ok\<close>, \<^verbatim>\<open>status\<close> and whether it has a body),
  a \<^verbatim>\<open>reader.read()\<close> of task \<open>i\<close> giving a chunk, and the stream of task \<open>i\<close> ending.
  An action for a task that is not waiting for it changes nothing.
\<close>

datatype head = HeadRejected string | Head bool nat bool

datatype 'a action =
    Send 'a
  | Clear
  | Fetched nat head
  | Chunk nat string
  | Ended nat stream_end

subsection \<open>\<^verbatim>\<open>App.jsx\<close>\<close>

text \<open>\<^verbatim>\<open>clearConversation\<close>: \<^verbatim>\<open>historyRef.current = []\<close> is a new array.\<close>

definition clearConversation :: "ui_state \<Rightarrow> ui_state" where
  "clearConversation st =
     (let (h, a) = alloc (heap st) []
      in st\<lparr>messages := [], traces := [], heap := h, historyRef := a\<rparr>)"

text \<open>The end of a call: the \<^verbatim>\<open>catch\<close> block if something was thrown, then \<^verbatim>\<open>finally\<close>.\<close>

definition app_finish :: "nat \<Rightarrow> string option \<Rightarrow> sys \<Rightarrow> sys" where
  "app_finish i thrown s =
     (let t = tasks s ! i;
          st2 = (case thrown of
                   None \<Rightarrow> s_ui s
                 | Some m \<Rightarrow> catch_block (t_aid t) m (s_ui s))
      in s\<lparr>s_ui := finally_block (t_text t) (t_reply t) st2,
            tasks := (tasks s)[i := t\<lparr>t_phase := Finished\<rparr>]\<rparr>)"

definition app_step :: "parser \<Rightarrow> (nat \<times> string) action \<Rightarrow> sys \<Rightarrow> sys" where
  "app_step P a s =
     (case a of
        Send arg \<Rightarrow>
          (let msgText = trim (snd arg) in
           if msgText = [] \<or> streaming (s_ui s) then s
           else (let L0 = turn_start (fst arg) msgText (s_ui s)
                 in s\<lparr>s_ui := ui L0,
                      tasks := tasks s @
                        [\<lparr>t_text = msgText, t_aid = AssistantId (fst arg), t_phase = Fetching,
                          t_buffer = [], t_reply = finalContent L0, t_flag = doneSignal L0\<rparr>],
                      requests := requests s @
                        [\<lparr>req_message = msgText,
                          req_history = deref (heap (s_ui s)) (historyRef (s_ui s))\<rparr>]\<rparr>))
      | Clear \<Rightarrow> s\<lparr>s_ui := clearConversation (s_ui s)\<rparr>
      | Fetched i h \<Rightarrow>
          if i < length (tasks s) \<and> t_phase (tasks s ! i) = Fetching then
            (case h of
               HeadRejected m \<Rightarrow> app_finish i (Some m) s
             | Head ok_res status_res has_body \<Rightarrow>
                 if \<not> ok_res then app_finish i (Some (''Server error '' @ show_nat status_res)) s
                 else if \<not> has_body then app_finish i (Some ''res.body is null'') s
                 else s\<lparr>tasks := (tasks s)[i := (tasks s ! i)\<lparr>t_phase := Reading\<rparr>]\<rparr>)
          else s
      | Chunk i v \<Rightarrow>
          if i < length (tasks s) \<and> t_phase (tasks s ! i) = Reading then
            (let t = tasks s ! i;
                 lines = split_lines (t_buffer t @ v);
                 L = for_lines P (t_aid t) (butlast lines)
                       \<lparr>ui = s_ui s, finalContent = t_reply t, doneSignal = t_flag t\<rparr>;
                 s' = s\<lparr>s_ui := ui L,
                        tasks := (tasks s)[i := t\<lparr>t_buffer := last lines,
                                                  t_reply := finalContent L,
                                                  t_flag := doneSignal L\<rparr>]\<rparr>
             in if doneSignal L then app_finish i None s' else s')
          else s
      | Ended i e \<Rightarrow>
          if i < length (tasks s) \<and> t_phase (tasks s ! i) = Reading then
            (case e of
               EndOfStream \<Rightarrow> app_finish i None s
             | ReadRejected m \<Rightarrow> app_finish i (Some m) s)
          else s)"

fun app_run :: "parser \<Rightarrow> (nat \<times> string) action list \<Rightarrow> sys \<Rightarrow> sys" where
  "app_run P [] s = s"
| "app_run P (a # as) s = app_run P as (app_step P a s)"

subsection \<open>\<^verbatim>\<open>assets/app.jsx\<close>\<close>

text \<open>
  \<^verbatim>\<open>clearConversation\<close>: it also clears the flag \<^verbatim>\<open>streaming\<close>, and nothing stops the
  reader of a call that is under way. (The toast it shows is not part of the state
  here.)
\<close>

definition assets_clearConversation :: "ui_state \<Rightarrow> ui_state" where
  "assets_clearConversation st =
     (let (h, a) = alloc (heap st) []
      in st\<lparr>heap := h, historyRef := a, messages := [], traces := [], input := [],
            runState := ''Idle'', streaming := False\<rparr>)"

definition assets_finish :: "nat \<Rightarrow> string option \<Rightarrow> sys \<Rightarrow> sys" where
  "assets_finish i thrown s =
     (let t = tasks s ! i;
          L = \<lparr>ui_a = s_ui s, assistantReply = t_reply t, hadError = t_flag t\<rparr>;
          L2 = (case thrown of None \<Rightarrow> L | Some m \<Rightarrow> assets_catch_block m L)
      in s\<lparr>s_ui := assets_turn_end (t_text t) L2,
            tasks := (tasks s)[i := t\<lparr>t_phase := Finished\<rparr>]\<rparr>)"

definition assets_step :: "parser \<Rightarrow> (bool \<times> string option) action \<Rightarrow> sys \<Rightarrow> sys" where
  "assets_step P a s =
     (case a of
        Send arg \<Rightarrow>
          (let text = trim (case snd arg of None \<Rightarrow> input (s_ui s) | Some x \<Rightarrow> x) in
           if text = [] \<or> streaming (s_ui s) then s
           else (let L0 = assets_turn_start (fst arg) text (s_ui s)
                 in s\<lparr>s_ui := ui_a L0,
                      tasks := tasks s @
                        [\<lparr>t_text = text, t_aid = GenId 0, t_phase = Fetching,
                          t_buffer = [], t_reply = assistantReply L0, t_flag = hadError L0\<rparr>],
                      requests := requests s @
                        [\<lparr>req_message = text,
                          req_history = deref (heap (s_ui s)) (historyRef (s_ui s))\<rparr>]\<rparr>))
      | Clear \<Rightarrow> s\<lparr>s_ui := assets_clearConversation (s_ui s)\<rparr>
      | Fetched i h \<Rightarrow>
          if i < length (tasks s) \<and> t_phase (tasks s ! i) = Fetching then
            (case h of
               HeadRejected m \<Rightarrow> assets_finish i (Some m) s
             | Head ok_res status_res has_body \<Rightarrow>
                 if \<not> ok_res then assets_finish i (Some (''HTTP '' @ show_nat status_res)) s
                 else if \<not> has_body then
                   assets_finish i (Some ''No response stream from server'') s
                 else s\<lparr>tasks := (tasks s)[i := (tasks s ! i)\<lparr>t_phase := Reading\<rparr>]\<rparr>)
          else s
      | Chunk i v \<Rightarrow>
          if i < length (tasks s) \<and> t_phase (tasks s ! i) = Reading then
            (let t = tasks s ! i;
                 lines = split_lines (t_buffer t @ v);
                 (L, thrown) = assets_lines P (butlast lines)
                       \<lparr>ui_a = s_ui s, assistantReply = t_reply t, hadError = t_flag t\<rparr>;
                 s' = s\<lparr>s_ui := ui_a L,
                        tasks := (tasks s)[i := t\<lparr>t_buffer := last lines,
                                                  t_reply := assistantReply L,
                                                  t_flag := hadError L\<rparr>]\<rparr>
             in (case thrown of None \<Rightarrow> s' | Some m \<Rightarrow> assets_finish i (Some m) s'))
          else s
      | Ended i e \<Rightarrow>
          if i < length (tasks s) \<and> t_phase (tasks s ! i) = Reading then
            (case e of
               EndOfStream \<Rightarrow> assets_finish i None s
             | ReadRejected m \<Rightarrow> assets_finish i (Some m) s)
          else s)"

fun assets_run :: "parser \<Rightarrow> (bool \<times> string option) action list \<Rightarrow> sys \<Rightarrow> sys" where
  "assets_run P [] s = s"
| "assets_run P (a # as) s = assets_run P as (assets_step P a s)"

text \<open>The steps of one call with a given outcome of the network, for task \<open>i\<close>.\<close>

definition turn_actions :: "nat \<Rightarrow> fetch_outcome \<Rightarrow> 'a action list" where
  "turn_actions i net =
     (case net of
        FetchRejected m \<Rightarrow> [Fetched i (HeadRejected m)]
      | FetchResolved res \<Rightarrow>
          (case body res of
             None \<Rightarrow> [Fetched i (Head (ok res) (status res) False)]
           | Some (chunks, e) \<Rightarrow>
               Fetched i (Head (ok res) (status res) True) # map (Chunk i) chunks @ [Ended i e]))"

text \<open>The tasks that are under way.\<close>

definition in_flight :: "sys \<Rightarrow> nat list" where
  "in_flight s = filter (\<lambda>i. t_phase (tasks s ! i) \<noteq> Finished) [0..<length (tasks s)]"

text \<open>
  At most one task is under way, and while one is, the flag \<^verbatim>\<open>streaming\<close> is set.
\<close>

definition one_turn_at_a_time :: "sys \<Rightarrow> bool" where
  "one_turn_at_a_time s =
     (\<forall>i<length (tasks s). t_phase (tasks s ! i) \<noteq> Finished \<longrightarrow>
        streaming (s_ui s) \<and>
        (\<forall>j<length (tasks s). t_phase (tasks s ! j) \<noteq> Finished \<longrightarrow> j = i))"

section \<open>The board cards of the side panel\<close>









section \<open>Notions used in the statements\<close>

text \<open>The history array a state refers to.\<close>

definition history_of :: "ui_state \<Rightarrow> entry list" where
  "history_of st = deref (heap st) (historyRef st)"

text \<open>
  The reply of a turn: the value of \<^verbatim>\<open>finalContent\<close> (\<^verbatim>\<open>App.jsx\<close>) or
  \<^verbatim>\<open>assistantReply\<close> (\<^verbatim>\<open>assets/app.jsx\<close>) when the \<^verbatim>\<open>try\<close> statement is left.
\<close>

definition turn_reply :: "parser \<Rightarrow> nat \<Rightarrow> fetch_outcome \<Rightarrow> string \<Rightarrow> ui_state \<Rightarrow> jsval" where
  "turn_reply P now net text st =
     finalContent (fst (try_block P (AssistantId now) net (turn_start now (trim text) st)))"


text \<open>
  A trace entry \<open>t\<close> and what a later trace list holds at the same position: the same
  entry, or the entry resolved, with identifier, type, name, arguments and message as
  they were.
\<close>

definition unchanged_or_resolved :: "trace \<Rightarrow> trace \<Rightarrow> bool" where
  "unchanged_or_resolved t t' =
     (t' = t \<or> (\<not> resolved t \<and> resolved t' \<and> id_t t' = id_t t \<and> type t' = type t
        \<and> name t' = name t \<and> args t' = args t \<and> message t' = message t))"

definition traces_kept :: "trace list \<Rightarrow> trace list \<Rightarrow> bool" where
  "traces_kept ts ts' =
     (length ts \<le> length ts' \<and> (\<forall>i<length ts. unchanged_or_resolved (ts ! i) (ts' ! i)))"

text \<open>
  The test each front end applies to a trace entry when a \<^verbatim>\<open>tool_result\<close> event
  arrives: an unresolved call entry with the name of the event.
\<close>

definition awaits_result :: "json \<Rightarrow> trace \<Rightarrow> bool" where
  "awaits_result event t =
     (strict_eq (name t) (getprop event ''name'') \<and> type t = ''call'' \<and> \<not> resolved t)"

definition assets_awaits_result :: "json \<Rightarrow> trace \<Rightarrow> bool" where
  "assets_awaits_result event item =
     (type item = ''tool_call'' \<and> \<not> resolved item
        \<and> strict_eq (name item) (getprop event ''name''))"

text \<open>
  The frames of a stream: the complete lines of the chunks put together (what follows
  the last line feed is never processed).
\<close>

definition stream_lines :: "string list \<Rightarrow> string list" where
  "stream_lines chunks = butlast (split_lines (concat chunks))"

text \<open>
  A frame that does not begin with \<^verbatim>\<open>data: \<close> or whose payload \<^verbatim>\<open>JSON.parse\<close> rejects.
  The payload is what the code hands to \<^verbatim>\<open>JSON.parse\<close>: \<^verbatim>\<open>line.slice(6)\<close> in
  \<^verbatim>\<open>App.jsx\<close>, \<^verbatim>\<open>line.slice(6).trim()\<close> in \<^verbatim>\<open>assets/app.jsx\<close>.
\<close>

definition malformed_frame :: "parser \<Rightarrow> string \<Rightarrow> bool" where
  "malformed_frame P line = (\<not> startsWith line ''data: '' \<or> P (drop 6 line) = None)"

definition assets_malformed_frame :: "parser \<Rightarrow> string \<Rightarrow> bool" where
  "assets_malformed_frame P line =
     (\<not> startsWith line ''data: '' \<or> P (trim (drop 6 line)) = None)"

text \<open>A frame that carries an event of the given type.\<close>

definition frame_of_type :: "parser \<Rightarrow> string \<Rightarrow> string \<Rightarrow> bool" where
  "frame_of_type P ty line =
     (startsWith line ''data: '' \<and>
      (case P (drop 6 line) of
         None \<Rightarrow> False
       | Some event \<Rightarrow> getprop event ''type'' = Some (JStr ty)))"

definition assets_frame_of_type :: "parser \<Rightarrow> string \<Rightarrow> string \<Rightarrow> bool" where
  "assets_frame_of_type P ty line =
     (startsWith line ''data: '' \<and>
      (case P (trim (drop 6 line)) of
         None \<Rightarrow> False
       | Some event \<Rightarrow> getprop event ''type'' = Some (JStr ty)))"

text \<open>
  A turn without a final message event: the request fails, the response is not
  \<^verbatim>\<open>ok\<close> or has no body, or no frame of the stream is a \<^verbatim>\<open>message\<close> event.
\<close>

definition no_message_event :: "parser \<Rightarrow> fetch_outcome \<Rightarrow> bool" where
  "no_message_event P net =
     (case net of
        FetchRejected m \<Rightarrow> True
      | FetchResolved res \<Rightarrow>
          \<not> ok res \<or>
          (case body res of
             None \<Rightarrow> True
           | Some (chunks, e) \<Rightarrow>
               list_all (\<lambda>line. \<not> frame_of_type P ''message'' line) (stream_lines chunks)))"

definition assets_no_message_event :: "parser \<Rightarrow> fetch_outcome \<Rightarrow> bool" where
  "assets_no_message_event P net =
     (case net of
        FetchRejected m \<Rightarrow> True
      | FetchResolved res \<Rightarrow>
          \<not> ok res \<or>
          (case body res of
             None \<Rightarrow> True
           | Some (chunks, e) \<Rightarrow>
               list_all (\<lambda>line. \<not> assets_frame_of_type P ''message'' line)
                 (stream_lines chunks)))"

section \<open>Example inputs\<close>

text \<open>The values of \<^verbatim>\<open>JSON.parse\<close> on the payloads used in the examples.\<close>

definition example_parse :: parser where
  \<open>example_parse = map_of
    [(''{"type":"tool_call","name":"query_deals_board"}'',
        JObj [(''type'', JStr ''tool_call''), (''name'', JStr ''query_deals_board'')]),
     (''{"type":"tool_result","name":"query_deals_board","item_count":5}'',
        JObj [(''type'', JStr ''tool_result''), (''name'', JStr ''query_deals_board''),
              (''item_count'', JNum 5)]),
     (''{"type":"message","content":"ok"}'',
        JObj [(''type'', JStr ''message''), (''content'', JStr ''ok'')]),
     (''{"type":"error","message":"timeout"}'',
        JObj [(''type'', JStr ''error''), (''message'', JStr ''timeout'')]),
     (''{"type":"done"}'', JObj [(''type'', JStr ''done'')])]\<close>

definition call_line :: string where
  \<open>call_line = ''data: {"type":"tool_call","name":"query_deals_board"}''\<close>

definition result_line :: string where
  \<open>result_line = ''data: {"type":"tool_result","name":"query_deals_board","item_count":5}''\<close>

definition message_line :: string where
  \<open>message_line = ''data: {"type":"message","content":"ok"}''\<close>

definition error_line :: string where
  \<open>error_line = ''data: {"type":"error","message":"timeout"}''\<close>

definition done_line :: string where
  \<open>done_line = ''data: {"type":"done"}''\<close>

text \<open>A stream of one chunk that holds the given lines, each ended by a line feed.\<close>

definition one_chunk :: "string list \<Rightarrow> fetch_outcome" where
  "one_chunk ls =
     FetchResolved (Response True 200 (Some ([concat (map (\<lambda>l. l @ [CHR 0x0A]) ls)], EndOfStream)))"

text \<open>A state in the middle of a turn, with one open call and one resolved call.\<close>

definition open_call :: trace where
  "open_call = \<lparr>id_t = GenId 0, type = ''call'', name = Some (JStr ''query_deals_board''),
     args = Some (JObj []), resolved = False, itemCount = None, dataQuality = None,
     message = None\<rparr>"

definition example_locals :: locals where
  "example_locals = \<lparr>ui = initial\<lparr>traces := [open_call], streaming := True, idgen := 1\<rparr>,
     finalContent = Some (JStr []), doneSignal = False\<rparr>"

definition assets_example_locals :: assets_locals where
  "assets_example_locals =
     \<lparr>ui_a = initial\<lparr>traces := [open_call\<lparr>type := ''tool_call''\<rparr>], streaming := True,
               idgen := 1\<rparr>,
      assistantReply = Some (JStr []), hadError = False\<rparr>"

text \<open>A state whose history holds \<open>n\<close> earlier entries.\<close>

definition old_entry :: entry where
  "old_entry = \<lparr>role = ''user'', content = Some (JStr ''earlier'')\<rparr>"

definition history_state :: "nat \<Rightarrow> ui_state" where
  "history_state n = initial\<lparr>heap := [replicate n old_entry]\<rparr>"

section \<open>Basic facts about strings, the store and the turn\<close>


lemma trim_Nil_iff: "trim s = [] \<longleftrightarrow> (\<forall>c\<in>set s. is_space c)"
proof -
  have "trim s = [] \<longleftrightarrow> (\<forall>c\<in>set (dropWhile is_space s). is_space c)"
    by (simp add: trim_def dropWhile_eq_Nil_conv)
  also have "\<dots> \<longleftrightarrow> dropWhile is_space s = []"
  proof
    assume a: "\<forall>c\<in>set (dropWhile is_space s). is_space c"
    show "dropWhile is_space s = []"
    proof (rule ccontr)
      assume n: "dropWhile is_space s \<noteq> []"
      then have "\<not> is_space (hd (dropWhile is_space s))" by (rule hd_dropWhile)
      moreover have "hd (dropWhile is_space s) \<in> set (dropWhile is_space s)" using n by simp
      ultimately show False using a by blast
    qed
  next
    assume e: "dropWhile is_space s = []"
    show "\<forall>c\<in>set (dropWhile is_space s). is_space c" unfolding e by simp
  qed
  also have "\<dots> \<longleftrightarrow> (\<forall>c\<in>set s. is_space c)" by (simp add: dropWhile_eq_Nil_conv)
  finally show ?thesis .
qed

lemma length_slice_last: "length (slice_last n xs) \<le> n"
  by (simp add: slice_last_def)

lemma split_lines_not_Nil [simp]: "split_lines s \<noteq> []"
  by (induction s) (auto split: list.splits)

lemma split_lines_append:
  "split_lines (a @ b) = butlast (split_lines a) @ split_lines (last (split_lines a) @ b)"
proof (induction a)
  case Nil
  show ?case by simp
next
  case (Cons c cs)
  obtain l ls where X: "split_lines cs = l # ls" by (cases "split_lines cs") auto
  show ?case
  proof (cases "c = CHR 0x0A")
    case True
    then show ?thesis using Cons by simp
  next
    case False
    show ?thesis
    proof (cases ls)
      case Nil
      then show ?thesis using False Cons X by simp
    next
      case (Cons l' ls')
      then show ?thesis using False Cons.IH X by simp
    qed
  qed
qed

lemma switch_event_heap [simp]:
  "heap (ui (switch_event aid ev L)) = heap (ui L)"
  "historyRef (ui (switch_event aid ev L)) = historyRef (ui L)"
  by (simp_all add: switch_event_def Let_def)

lemma try_frame_heap [simp]:
  "heap (ui (try_frame P aid line L)) = heap (ui L)"
  "historyRef (ui (try_frame P aid line L)) = historyRef (ui L)"
  by (simp_all add: try_frame_def split: option.splits)

lemma for_lines_heap [simp]:
  "heap (ui (for_lines P aid ls L)) = heap (ui L)"
  "historyRef (ui (for_lines P aid ls L)) = historyRef (ui L)"
  by (induction ls arbitrary: L) (simp_all add: Let_def)

lemma read_loop_heap [simp]:
  "heap (ui (fst (read_loop P aid cs e buf L))) = heap (ui L)"
  "historyRef (ui (fst (read_loop P aid cs e buf L))) = historyRef (ui L)"
  by (induction cs arbitrary: buf L) (simp_all add: Let_def split: stream_end.splits)

lemma try_block_heap [simp]:
  "heap (ui (fst (try_block P aid net L))) = heap (ui L)"
  "historyRef (ui (fst (try_block P aid net L))) = historyRef (ui L)"
  by (simp_all add: try_block_def split: fetch_outcome.splits option.splits prod.splits)

lemma catch_block_heap [simp]:
  "heap (catch_block aid m st) = heap st"
  "historyRef (catch_block aid m st) = historyRef st"
  by (simp_all add: catch_block_def)

lemma finally_block_cases:
  "(heap (finally_block tx final st) = heap st \<and> historyRef (finally_block tx final st) = historyRef st \<and> \<not> truthy final)
   \<or> (truthy final \<and> finally_block tx final st = append_and_slice 40 tx final
         (st\<lparr>streaming := False,
             messages := map (\<lambda>m. if pending m then m\<lparr>pending := False\<rparr> else m) (messages st)\<rparr>))"
  by (simp add: finally_block_def Let_def)

lemma append_and_slice_heap:
  "heap (append_and_slice n tx reply st) =
     heap st @ [deref (heap st) (historyRef st) @
                  [\<lparr>role = ''user'', content = Some (JStr tx)\<rparr>,
                   \<lparr>role = ''assistant'', content = reply\<rparr>],
                slice_last n (deref (heap st) (historyRef st) @
                  [\<lparr>role = ''user'', content = Some (JStr tx)\<rparr>,
                   \<lparr>role = ''assistant'', content = reply\<rparr>])]"
  by (simp add: append_and_slice_def alloc_def deref_def nth_append)

lemma append_and_slice_ref:
  "historyRef (append_and_slice n tx reply st) = Suc (length (heap st))"
  by (simp add: append_and_slice_def alloc_def)


lemma sendMessage_noop:
  "trim text = [] \<or> streaming st \<Longrightarrow> sendMessage P now net text st = (st, [])"
  by (auto simp add: sendMessage_def)

lemma sendMessage_run:
  assumes "trim text \<noteq> []" "\<not> streaming st"
  shows "\<exists>st2. heap st2 = heap st \<and> historyRef st2 = historyRef st \<and>
      sendMessage P now net text st =
        (finally_block (trim text)
           (finalContent (fst (try_block P (AssistantId now) net (turn_start now (trim text) st)))) st2,
         [\<lparr>req_message = trim text, req_history = deref (heap st) (historyRef st)\<rparr>])"
proof -
  define L0 where "L0 = turn_start now (trim text) st"
  obtain L1 thrown where tb: "try_block P (AssistantId now) net L0 = (L1, thrown)"
    by (cases "try_block P (AssistantId now) net L0")
  define st2 where "st2 = (case thrown of None \<Rightarrow> ui L1
                           | Some m \<Rightarrow> catch_block (AssistantId now) m (ui L1))"
  have h: "heap (ui L1) = heap (ui L0)" "historyRef (ui L1) = historyRef (ui L0)"
    using try_block_heap [of P "AssistantId now" net L0] tb by simp_all
  have h0: "heap (ui L0) = heap st" "historyRef (ui L0) = historyRef st"
    by (simp_all add: L0_def turn_start_def)
  have 1: "heap st2 = heap st" "historyRef st2 = historyRef st"
    using h h0 by (simp_all add: st2_def split: option.splits)
  have 2: "sendMessage P now net text st =
        (finally_block (trim text) (finalContent L1) st2,
         [\<lparr>req_message = trim text, req_history = deref (heap st) (historyRef st)\<rparr>])"
    using assms tb by (simp add: sendMessage_def Let_def L0_def st2_def)
  show ?thesis using 1 2 tb unfolding L0_def by auto
qed

lemma assets_ops_heap [simp]:
  "heap (addTraceCall ev st) = heap st" "historyRef (addTraceCall ev st) = historyRef st"
  "heap (addTraceResult ev st) = heap st" "historyRef (addTraceResult ev st) = historyRef st"
  "heap (addTraceError ev st) = heap st" "historyRef (addTraceError ev st) = historyRef st"
  "heap (pushUserMessage t st) = heap st" "historyRef (pushUserMessage t st) = historyRef st"
  "heap (pushAssistantMessage v st) = heap st" "historyRef (pushAssistantMessage v st) = historyRef st"
  by (simp_all add: addTraceCall_def addTraceResult_def addTraceError_def pushUserMessage_def
        pushAssistantMessage_def Let_def)

lemma assets_frame_heap [simp]:
  "heap (ui_a (fst (assets_frame P line L))) = heap (ui_a L)"
  "historyRef (ui_a (fst (assets_frame P line L))) = historyRef (ui_a L)"
  by (simp_all add: assets_frame_def Let_def split: option.splits)

lemma assets_lines_heap [simp]:
  "heap (ui_a (fst (assets_lines P ls L))) = heap (ui_a L)"
  "historyRef (ui_a (fst (assets_lines P ls L))) = historyRef (ui_a L)"
proof (induction ls arbitrary: L)
  case Nil
  { case 1 show ?case by simp next case 2 show ?case by simp }
next
  case (Cons l ls)
  { case 1
    show ?case using Cons.IH(1) [of "fst (assets_frame P l L)"] assets_frame_heap(1) [of P l L]
      by (cases "assets_frame P l L") (auto split: option.splits)
  next
    case 2
    show ?case using Cons.IH(2) [of "fst (assets_frame P l L)"] assets_frame_heap(2) [of P l L]
      by (cases "assets_frame P l L") (auto split: option.splits)
  }
qed

lemma assets_read_loop_heap [simp]:
  "heap (ui_a (fst (assets_read_loop P cs e buf L))) = heap (ui_a L)"
  "historyRef (ui_a (fst (assets_read_loop P cs e buf L))) = historyRef (ui_a L)"
proof (induction cs arbitrary: buf L)
  case Nil
  { case 1 show ?case by (simp split: stream_end.splits)
  next case 2 show ?case by (simp split: stream_end.splits) }
next
  case (Cons v cs)
  { case 1
    show ?case
      using Cons.IH(1) [of "last (split_lines (buf @ v))" "fst (assets_lines P (butlast (split_lines (buf @ v))) L)"]
        assets_lines_heap(1) [of P "butlast (split_lines (buf @ v))" L]
      by (cases "assets_lines P (butlast (split_lines (buf @ v))) L") (auto simp: Let_def split: option.splits)
  next
    case 2
    show ?case
      using Cons.IH(2) [of "last (split_lines (buf @ v))" "fst (assets_lines P (butlast (split_lines (buf @ v))) L)"]
        assets_lines_heap(2) [of P "butlast (split_lines (buf @ v))" L]
      by (cases "assets_lines P (butlast (split_lines (buf @ v))) L") (auto simp: Let_def split: option.splits)
  }
qed

lemma assets_try_block_heap [simp]:
  "heap (ui_a (fst (assets_try_block P net L))) = heap (ui_a L)"
  "historyRef (ui_a (fst (assets_try_block P net L))) = historyRef (ui_a L)"
  by (simp_all add: assets_try_block_def split: fetch_outcome.splits option.splits prod.splits)

lemma assets_catch_block_heap [simp]:
  "heap (ui_a (assets_catch_block m L)) = heap (ui_a L)"
  "historyRef (ui_a (assets_catch_block m L)) = historyRef (ui_a L)"
  by (simp_all add: assets_catch_block_def)

lemma assets_turn_start_heap [simp]:
  "heap (ui_a (assets_turn_start c t st)) = heap st"
  "historyRef (ui_a (assets_turn_start c t st)) = historyRef st"
  by (simp_all add: assets_turn_start_def Let_def)

lemma turn_start_heap [simp]:
  "heap (ui (turn_start now t st)) = heap st"
  "historyRef (ui (turn_start now t st)) = historyRef st"
  by (simp_all add: turn_start_def)

lemma assets_sendMessage_run:
  assumes "trim (case override of None \<Rightarrow> input st | Some s \<Rightarrow> s) = tx" "tx \<noteq> []" "\<not> streaming st"
  shows "\<exists>L2. heap (ui_a L2) = heap st \<and> historyRef (ui_a L2) = historyRef st \<and>
      assistantReply L2 =
        assistantReply (fst (assets_try_block P net (assets_turn_start isCompact tx st))) \<and>
      assets_sendMessage P isCompact net override st =
        (assets_turn_end tx L2,
         [\<lparr>req_message = tx, req_history = deref (heap st) (historyRef st)\<rparr>])"
proof -
  define L0 where "L0 = assets_turn_start isCompact tx st"
  obtain L1 thrown where tb: "assets_try_block P net L0 = (L1, thrown)"
    by (cases "assets_try_block P net L0")
  define L2 where "L2 = (case thrown of None \<Rightarrow> L1 | Some m \<Rightarrow> assets_catch_block m L1)"
  have h: "heap (ui_a L1) = heap (ui_a L0)" "historyRef (ui_a L1) = historyRef (ui_a L0)"
    using assets_try_block_heap [of P net L0] tb by simp_all
  have h0: "heap (ui_a L0) = heap st" "historyRef (ui_a L0) = historyRef st"
    by (simp_all add: L0_def)
  have 1: "heap (ui_a L2) = heap st" "historyRef (ui_a L2) = historyRef st"
    using h h0 by (simp_all add: L2_def split: option.splits)
  have 2: "assets_sendMessage P isCompact net override st =
        (assets_turn_end tx L2,
         [\<lparr>req_message = tx, req_history = deref (heap st) (historyRef st)\<rparr>])"
    using assms tb by (simp add: assets_sendMessage_def Let_def L0_def L2_def)
  have 3: "assistantReply L2 = assistantReply (fst (assets_try_block P net L0))"
    using tb by (simp add: L2_def assets_catch_block_def split: option.splits)
  show ?thesis using 1 2 3 unfolding L0_def by blast
qed

lemma assets_turn_end_cases:
  "(heap (assets_turn_end tx L) = heap (ui_a L) \<and> historyRef (assets_turn_end tx L) = historyRef (ui_a L)
      \<and> \<not> truthy (assistantReply L))
   \<or> (truthy (assistantReply L) \<and>
       heap (assets_turn_end tx L) = heap (append_and_slice 20 tx (assistantReply L) (ui_a L)) \<and>
       historyRef (assets_turn_end tx L) = historyRef (append_and_slice 20 tx (assistantReply L) (ui_a L)))"
  by (simp add: assets_turn_end_def Let_def)

text \<open>History after a turn: unchanged, or the two new arrays.\<close>

lemma sendMessage_history:
  assumes H_def: "H = deref (heap st) (historyRef st)"
    and st'_def: "st' = fst (sendMessage P now net tx st)"
  shows "(heap st' = heap st \<and> historyRef st' = historyRef st) \<or>
         (\<exists>reply. heap st' = heap st @
              [H @ [\<lparr>role = ''user'', content = Some (JStr (trim tx))\<rparr>,
                    \<lparr>role = ''assistant'', content = reply\<rparr>],
               slice_last 40 (H @ [\<lparr>role = ''user'', content = Some (JStr (trim tx))\<rparr>,
                    \<lparr>role = ''assistant'', content = reply\<rparr>])]
            \<and> historyRef st' = Suc (length (heap st)))"
proof (cases "trim tx = [] \<or> streaming st")
  case True
  then show ?thesis by (simp add: st'_def sendMessage_noop)
next
  case False
  then obtain st2 final where st2: "heap st2 = heap st" "historyRef st2 = historyRef st"
     and eq: "st' = finally_block (trim tx) final st2"
    using sendMessage_run [of tx st P now net] unfolding st'_def by auto
  show ?thesis
    using finally_block_cases [of "trim tx" final st2] st2
    by (auto simp: eq append_and_slice_heap append_and_slice_ref H_def)
qed

lemma assets_sendMessage_history:
  assumes H_def: "H = deref (heap st) (historyRef st)"
    and tx_def: "tx = trim (case override of None \<Rightarrow> input st | Some s \<Rightarrow> s)"
    and st'_def: "st' = fst (assets_sendMessage P isCompact net override st)"
  shows "(heap st' = heap st \<and> historyRef st' = historyRef st) \<or>
         (\<exists>reply. heap st' = heap st @
              [H @ [\<lparr>role = ''user'', content = Some (JStr tx)\<rparr>,
                    \<lparr>role = ''assistant'', content = reply\<rparr>],
               slice_last 20 (H @ [\<lparr>role = ''user'', content = Some (JStr tx)\<rparr>,
                    \<lparr>role = ''assistant'', content = reply\<rparr>])]
            \<and> historyRef st' = Suc (length (heap st)))"
proof (cases "tx = [] \<or> streaming st")
  case True
  then show ?thesis by (auto simp add: st'_def tx_def assets_sendMessage_def)
next
  case False
  then obtain L2 where L2: "heap (ui_a L2) = heap st" "historyRef (ui_a L2) = historyRef st"
     and eq: "st' = assets_turn_end tx L2"
    using assets_sendMessage_run [where override=override and st=st and tx=tx and P=P and isCompact=isCompact and net=net] unfolding st'_def tx_def by auto
  show ?thesis
    using assets_turn_end_cases [of tx L2] L2
    by (auto simp: eq append_and_slice_heap append_and_slice_ref H_def)
qed

lemma history_cases_bound:
  fixes h h' :: "entry list list"
  assumes "(h' = h \<and> r' = r) \<or>
         (\<exists>reply. h' = h @ [deref h r @ [u, a reply], slice_last n (deref h r @ [u, a reply])]
            \<and> r' = Suc (length h))"
  shows "(deref h' r' = deref h r \<or>
          (\<exists>reply. deref h' r' = drop (length (deref h r) + 2 - n) (deref h r @ [u, a reply])
             \<and> length (deref h' r') \<le> n))"
    and "length (deref h r) \<le> n \<longrightarrow> length (deref h' r') \<le> n"
    and "\<forall>x < length h. x < length h' \<and> h' ! x = h ! x"
    and "r' = r \<or> length h \<le> r'"
    and "(h' = h \<and> r' = r) \<or>
         (length h \<le> r' \<and>
          (\<exists>reply. deref h' r' = slice_last n (deref h r @ [u, a reply])))"
  using assms by (auto simp: deref_def nth_append slice_last_def)

section \<open>Trace entries are kept\<close>


lemma uor_refl [simp]: "unchanged_or_resolved t t"
  by (simp add: unchanged_or_resolved_def)

lemma uor_trans:
  "unchanged_or_resolved t t' \<Longrightarrow> unchanged_or_resolved t' t'' \<Longrightarrow> unchanged_or_resolved t t''"
  by (auto simp: unchanged_or_resolved_def)

lemma traces_kept_refl [simp]: "traces_kept ts ts"
  by (simp add: traces_kept_def)

lemma traces_kept_trans:
  "traces_kept ts ts' \<Longrightarrow> traces_kept ts' ts'' \<Longrightarrow> traces_kept ts ts''"
  unfolding traces_kept_def by (meson uor_trans le_trans less_le_trans)

lemma traces_kept_append [simp]: "traces_kept ts (ts @ xs)"
  by (simp add: traces_kept_def nth_append)

lemma traces_kept_update:
  "i < length ts \<Longrightarrow> \<not> resolved (ts ! i) \<Longrightarrow>
   traces_kept ts (ts[i := (ts ! i)\<lparr>resolved := True, itemCount := v\<rparr>])"
  by (auto simp: traces_kept_def unchanged_or_resolved_def nth_list_update)

lemma patch_map_all2:
  "list_all2 unchanged_or_resolved ts (patch_map ev b ts)"
  by (induction ts arbitrary: b) (auto simp: unchanged_or_resolved_def)

lemma traces_kept_patch_map: "traces_kept ts (patch_map ev b ts)"
  using patch_map_all2 [of ts ev b]
  by (auto simp: traces_kept_def list_all2_conv_all_nth)

lemma findIndex_from_found:
  "findIndex_from i p xs = k \<Longrightarrow> k \<noteq> - 1 \<Longrightarrow> 0 \<le> i \<Longrightarrow>
   i \<le> k \<and> k < i + int (length xs) \<and> p (xs ! nat (k - i)) \<and> (\<forall>j < nat (k - i). \<not> p (xs ! j))"
proof (induction xs arbitrary: i)
  case Nil
  then show ?case by simp
next
  case (Cons x xs)
  show ?case
  proof (cases "p x")
    case True
    then show ?thesis using Cons.prems by auto
  next
    case False
    then have f: "findIndex_from (i + 1) p xs = k" using Cons.prems by simp
    have ih: "i + 1 \<le> k \<and> k < i + 1 + int (length xs) \<and> p (xs ! nat (k - (i + 1)))
        \<and> (\<forall>j < nat (k - (i + 1)). \<not> p (xs ! j))"
      using Cons.IH [OF f] Cons.prems by simp
    have n: "nat (k - i) = Suc (nat (k - (i + 1)))" using ih by linarith
    show ?thesis using ih False by (auto simp: n nth_Cons split: nat.splits)
  qed
qed

lemma findIndex_from_none:
  "findIndex_from i p xs = - 1 \<Longrightarrow> 0 \<le> i \<Longrightarrow> \<forall>x\<in>set xs. \<not> p x"
proof (induction xs arbitrary: i)
  case Nil
  then show ?case by simp
next
  case (Cons x xs)
  then show ?case by (cases "p x") force+
qed

text \<open>The entry \<^verbatim>\<open>addTraceResult\<close> rewrites is the last one that matches.\<close>

lemma findIndex_rev_last:
  assumes "findIndex p (rev xs) = k" "k \<noteq> - 1"
  defines "target \<equiv> nat (int (length xs) - 1 - k)"
  shows "target < length xs" "p (xs ! target)" "\<forall>j. target < j \<and> j < length xs \<longrightarrow> \<not> p (xs ! j)"
proof -
  have f: "0 \<le> k \<and> k < int (length xs) \<and> p (rev xs ! nat k) \<and> (\<forall>j < nat k. \<not> p (rev xs ! j))"
    using findIndex_from_found [of 0 p "rev xs" k] assms(1,2) by (simp add: findIndex_def)
  then show t: "target < length xs" unfolding target_def by linarith
  have e: "length xs - Suc (nat k) = target" using f unfolding target_def by linarith
  show "p (xs ! target)" using f rev_nth [of "nat k" xs] e by auto
  show "\<forall>j. target < j \<and> j < length xs \<longrightarrow> \<not> p (xs ! j)"
  proof (intro allI impI)
    fix j assume j: "target < j \<and> j < length xs"
    define j' where "j' = length xs - Suc j"
    have "j' < nat k" using j f unfolding j'_def target_def by linarith
    then have "\<not> p (rev xs ! j')" using f by blast
    moreover have "rev xs ! j' = xs ! j" using rev_nth [of j' xs] j unfolding j'_def by auto
    ultimately show "\<not> p (xs ! j)" by simp
  qed
qed

lemma traces_kept_assets_ops:
  "traces_kept (traces st) (traces (addTraceCall ev st))"
  "traces_kept (traces st) (traces (addTraceError ev st))"
  "traces_kept (traces st) (traces (pushAssistantMessage v st))"
  by (simp_all add: addTraceCall_def addTraceError_def pushAssistantMessage_def)

lemma traces_kept_addTraceResult:
  "traces_kept (traces st) (traces (addTraceResult ev st))"
proof -
  define p where "p = (\<lambda>item :: trace. type item = ''tool_call'' \<and> \<not> resolved item
               \<and> strict_eq (name item) (getprop ev ''name''))"
  define k where "k = findIndex p (rev (traces st))"
  show ?thesis
  proof (cases "k = - 1")
    case True
    then show ?thesis using k_def p_def by (simp add: addTraceResult_def Let_def)
  next
    case False
    have 1: "nat (int (length (traces st)) - 1 - k) < length (traces st)"
      and 2: "p (traces st ! nat (int (length (traces st)) - 1 - k))"
      using findIndex_rev_last [of p "traces st" k] False k_def by auto
    have "\<not> resolved (traces st ! nat (int (length (traces st)) - 1 - k))" using 2 by (simp add: p_def)
    then show ?thesis using False 1 k_def p_def traces_kept_update
      by (simp add: addTraceResult_def Let_def)
  qed
qed

lemma traces_kept_switch_event:
  "traces_kept (traces (ui L)) (traces (ui (switch_event aid ev L)))"
  by (simp add: switch_event_def Let_def traces_kept_patch_map)

lemma traces_kept_try_frame:
  "traces_kept (traces (ui L)) (traces (ui (try_frame P aid line L)))"
  by (simp add: try_frame_def traces_kept_switch_event split: option.splits)

lemma traces_kept_for_lines:
  "traces_kept (traces (ui L)) (traces (ui (for_lines P aid ls L)))"
proof (induction ls arbitrary: L)
  case Nil
  show ?case by simp
next
  case (Cons l ls)
  show ?case
    using Cons.IH [of L] Cons.IH [of "try_frame P aid l L"] traces_kept_try_frame [of L P aid l]
    by (auto simp: Let_def intro: traces_kept_trans)
qed

lemma traces_kept_read_loop:
  "traces_kept (traces (ui L)) (traces (ui (fst (read_loop P aid cs e buf L))))"
proof (induction cs arbitrary: buf L)
  case Nil
  show ?case by (simp split: stream_end.splits)
next
  case (Cons v cs)
  show ?case
    using Cons.IH [where buf = "last (split_lines (buf @ v))" and L = "for_lines P aid (butlast (split_lines (buf @ v))) L"]
      traces_kept_for_lines [of L P aid "butlast (split_lines (buf @ v))"]
    by (auto simp: Let_def intro: traces_kept_trans)
qed

lemma traces_kept_assets_frame:
  "traces_kept (traces (ui_a L)) (traces (ui_a (fst (assets_frame P line L))))"
  by (simp add: assets_frame_def Let_def traces_kept_assets_ops traces_kept_addTraceResult
        traces_kept_trans [OF traces_kept_assets_ops(2) traces_kept_assets_ops(3)]
      split: option.splits)

lemma traces_kept_assets_lines:
  "traces_kept (traces (ui_a L)) (traces (ui_a (fst (assets_lines P ls L))))"
proof (induction ls arbitrary: L)
  case Nil
  show ?case by simp
next
  case (Cons l ls)
  show ?case
    using Cons.IH [of "fst (assets_frame P l L)"] traces_kept_assets_frame [of L P l]
    by (cases "assets_frame P l L") (auto split: option.splits intro: traces_kept_trans)
qed

lemma traces_kept_assets_read_loop:
  "traces_kept (traces (ui_a L)) (traces (ui_a (fst (assets_read_loop P cs e buf L))))"
proof (induction cs arbitrary: buf L)
  case Nil
  show ?case by (simp split: stream_end.splits)
next
  case (Cons v cs)
  show ?case
    using Cons.IH [where buf = "last (split_lines (buf @ v))" and L = "fst (assets_lines P (butlast (split_lines (buf @ v))) L)"]
      traces_kept_assets_lines [of L P "butlast (split_lines (buf @ v))"]
    by (cases "assets_lines P (butlast (split_lines (buf @ v))) L")
       (auto simp: Let_def split: option.splits intro: traces_kept_trans)
qed

lemma traces_kept_nth:
  assumes "traces_kept ts ts'" "i < length ts"
  shows "i < length ts' \<and> id_t (ts' ! i) = id_t (ts ! i) \<and> type (ts' ! i) = type (ts ! i) \<and>
     name (ts' ! i) = name (ts ! i) \<and> args (ts' ! i) = args (ts ! i) \<and>
     message (ts' ! i) = message (ts ! i) \<and>
     (resolved (ts ! i) \<longrightarrow> ts' ! i = ts ! i) \<and>
     (ts' ! i = ts ! i \<or> \<not> resolved (ts ! i) \<and> resolved (ts' ! i))"
  using assms by (auto simp: traces_kept_def unchanged_or_resolved_def)

text \<open>
  Claim C3. While the stream of a turn is processed, a trace entry that exists keeps its
  position, its identifier, type, name, arguments and message; it is either left as it
  is or goes from unresolved to resolved (the one transition, which sets the item count
  and, in \<^verbatim>\<open>App.jsx\<close>, the data quality), and a resolved entry is never changed again. This
  holds for the stream loop of \<^verbatim>\<open>App.jsx\<close> and for that of \<^verbatim>\<open>assets/app.jsx\<close>, from any
  state of the loop, for any stream.
\<close>

theorem trace_entries_only_resolved:
  "(let ts = traces (ui L); ts' = traces (ui (fst (read_loop P aid cs e buf L))) in
    i < length ts \<longrightarrow>
      i < length ts' \<and> id_t (ts' ! i) = id_t (ts ! i) \<and> type (ts' ! i) = type (ts ! i) \<and>
      name (ts' ! i) = name (ts ! i) \<and> args (ts' ! i) = args (ts ! i) \<and>
      message (ts' ! i) = message (ts ! i) \<and>
      (resolved (ts ! i) \<longrightarrow> ts' ! i = ts ! i) \<and>
      (ts' ! i = ts ! i \<or> \<not> resolved (ts ! i) \<and> resolved (ts' ! i)))
   \<and> (let ts = traces (ui_a La); ts' = traces (ui_a (fst (assets_read_loop P cs e buf La))) in
    j < length ts \<longrightarrow>
      j < length ts' \<and> id_t (ts' ! j) = id_t (ts ! j) \<and> type (ts' ! j) = type (ts ! j) \<and>
      name (ts' ! j) = name (ts ! j) \<and> args (ts' ! j) = args (ts ! j) \<and>
      message (ts' ! j) = message (ts ! j) \<and>
      (resolved (ts ! j) \<longrightarrow> ts' ! j = ts ! j) \<and>
      (ts' ! j = ts ! j \<or> \<not> resolved (ts ! j) \<and> resolved (ts' ! j)))"
  unfolding Let_def
  using traces_kept_nth [OF traces_kept_read_loop, of i L P aid cs e buf]
    traces_kept_nth [OF traces_kept_assets_read_loop, of j La P cs e buf]
  by blast

theorem trace_entries_only_resolved_witness:
  "traces (ui example_locals) = [open_call] \<and>
   traces (ui (fst (read_loop example_parse (AssistantId 0)
       [result_line @ [CHR 0x0A] @ result_line @ [CHR 0x0A] @ call_line @ [CHR 0x0A]] EndOfStream [] example_locals)))
     = [open_call\<lparr>resolved := True, itemCount := Some (JNum 5)\<rparr>,
        open_call\<lparr>id_t := GenId 1\<rparr>] \<and>
   traces (ui_a assets_example_locals) = [open_call\<lparr>type := ''tool_call''\<rparr>] \<and>
   traces (ui_a (fst (assets_read_loop example_parse
       [result_line @ [CHR 0x0A] @ result_line @ [CHR 0x0A] @ call_line @ [CHR 0x0A]] EndOfStream [] assets_example_locals))) ! 0
     = open_call\<lparr>type := ''tool_call'', resolved := True, itemCount := Some (JNum 5)\<rparr>"
  using trace_entries_only_resolved [of example_locals example_parse "AssistantId 0"
      "[result_line @ [CHR 0x0A] @ result_line @ [CHR 0x0A] @ call_line @ [CHR 0x0A]]" EndOfStream "[]" 0
      assets_example_locals 0]
  by (simp add: example_locals_def assets_example_locals_def open_call_def initial_def
        result_line_def call_line_def example_parse_def Let_def try_frame_def switch_event_def
        startsWith_def assets_frame_def trim_def is_space_def addTraceResult_def addTraceCall_def
        findIndex_def nullish_def or_default_def)

section \<open>The guard and the fresh trace list\<close>


text \<open>
  The guard of \<^verbatim>\<open>sendMessage\<close>, for a call run on its own: with a text that is empty or
  consists of white space only, or with the flag \<^verbatim>\<open>streaming\<close> set, the call returns the
  state it was given and issues no request; in \<^verbatim>\<open>assets/app.jsx\<close> the text is the
  argument or, without one, the input field. Whether the flag is set whenever a call is
  under way is the subject of the section on turns that overlap.
\<close>

theorem send_guard_noop:
  "((\<forall>c\<in>set tx. is_space c) \<or> streaming st \<longrightarrow>
      sendMessage P now net tx st = (st, []))
   \<and> ((\<forall>c\<in>set (case override of None \<Rightarrow> input st | Some s \<Rightarrow> s). is_space c) \<or> streaming st \<longrightarrow>
      assets_sendMessage P isCompact net override st = (st, []))"
  by (auto simp: sendMessage_def assets_sendMessage_def trim_Nil_iff)

theorem send_guard_noop_witness:
  "list_all is_space [CHR '' '', CHR 0x09, CHR 0x0A] \<and>
   sendMessage example_parse 0 (one_chunk [message_line, done_line]) [CHR '' '', CHR 0x09, CHR 0x0A] initial
     = (initial, []) \<and>
   streaming (initial\<lparr>streaming := True\<rparr>) \<and>
   assets_sendMessage example_parse False (one_chunk [message_line, done_line]) (Some ''hi'')
       (initial\<lparr>streaming := True\<rparr>)
     = (initial\<lparr>streaming := True\<rparr>, [])"
  using send_guard_noop [where tx = "[CHR '' '', CHR 0x09, CHR 0x0A]" and st = initial
      and P = example_parse and now = 0 and net = "one_chunk [message_line, done_line]"]
    send_guard_noop [where st = "initial\<lparr>streaming := True\<rparr>" and P = example_parse
      and isCompact = False and net = "one_chunk [message_line, done_line]"
      and override = "Some ''hi''"]
  by (simp add: is_space_def)

text \<open>
  The reset of the traces, for a call run on its own: when the guard passes, the trace
  list is empty before the request is made, and the whole outcome of the call, traces
  included, is the same whatever trace list the state held before.
\<close>

theorem fresh_traces_each_turn:
  "(trim tx \<noteq> [] \<and> \<not> streaming st \<longrightarrow>
      traces (ui (turn_start now (trim tx) st)) = [] \<and>
      sendMessage P now net tx (st\<lparr>traces := ts\<rparr>) = sendMessage P now net tx st)
   \<and> (trim (case override of None \<Rightarrow> input st | Some s \<Rightarrow> s) \<noteq> [] \<and> \<not> streaming st \<longrightarrow>
      traces (ui_a (assets_turn_start isCompact
         (trim (case override of None \<Rightarrow> input st | Some s \<Rightarrow> s)) st)) = [] \<and>
      assets_sendMessage P isCompact net override (st\<lparr>traces := ts\<rparr>)
        = assets_sendMessage P isCompact net override st)"
  by (cases override)
     (simp_all add: sendMessage_def assets_sendMessage_def turn_start_def assets_turn_start_def
        pushUserMessage_def Let_def)

theorem fresh_traces_each_turn_witness:
  "trim ''hi'' \<noteq> [] \<and> \<not> streaming initial \<and>
   sendMessage example_parse 0 (one_chunk [result_line, done_line]) ''hi''
       (initial\<lparr>traces := [open_call]\<rparr>)
     = sendMessage example_parse 0 (one_chunk [result_line, done_line]) ''hi'' initial \<and>
   assets_sendMessage example_parse False (one_chunk [result_line, done_line]) (Some ''hi'')
       (initial\<lparr>traces := [open_call\<lparr>type := ''tool_call''\<rparr>]\<rparr>)
     = assets_sendMessage example_parse False (one_chunk [result_line, done_line]) (Some ''hi'') initial"
proof -
  have t: "trim ''hi'' \<noteq> []" by (simp add: trim_def is_space_def)
  have s: "\<not> streaming initial" by (simp add: initial_def)
  show ?thesis
    using t s
      fresh_traces_each_turn [where tx = "''hi''" and st = initial and now = 0
        and P = example_parse and net = "one_chunk [result_line, done_line]"
        and ts = "[open_call]"]
      fresh_traces_each_turn [where st = initial and P = example_parse
        and net = "one_chunk [result_line, done_line]"
        and ts = "[open_call\<lparr>type := ''tool_call''\<rparr>]" and override = "Some ''hi''"
        and isCompact = False]
    by simp
qed

section \<open>The history\<close>


lemma history_initial: "history_of initial = []"
  by (simp add: history_of_def initial_def deref_def)







text \<open>
  Claim C5. \<^verbatim>\<open>sendMessage\<close> changes no array that exists when the turn starts: every
  address of the store keeps its content, in particular the history array the request
  was built from. After the turn the store and the history reference are the old ones,
  or the reference is the address of an array allocated during the turn, which holds
  the last entries of a copy of the old history with the user entry and the assistant
  entry appended.
\<close>

theorem history_never_mutated:
  "(let st' = fst (sendMessage P now net tx st) in
      (\<forall>a<length (heap st). a < length (heap st') \<and> heap st' ! a = heap st ! a) \<and>
      ((heap st' = heap st \<and> historyRef st' = historyRef st) \<or>
       (length (heap st) \<le> historyRef st' \<and>
        (\<exists>reply. history_of st' = slice_last 40
           (history_of st @ [\<lparr>role = ''user'', content = Some (JStr (trim tx))\<rparr>,
                             \<lparr>role = ''assistant'', content = reply\<rparr>])))) \<and>
      (\<forall>r\<in>set (snd (sendMessage P now net tx st)). req_history r = history_of st))
   \<and> (let st' = fst (assets_sendMessage P isCompact net override st) in
      (\<forall>a<length (heap st). a < length (heap st') \<and> heap st' ! a = heap st ! a) \<and>
      ((heap st' = heap st \<and> historyRef st' = historyRef st) \<or>
       (length (heap st) \<le> historyRef st' \<and>
        (\<exists>reply. history_of st' = slice_last 20
           (history_of st @
              [\<lparr>role = ''user'',
                 content = Some (JStr (trim (case override of None \<Rightarrow> input st | Some s \<Rightarrow> s)))\<rparr>,
               \<lparr>role = ''assistant'', content = reply\<rparr>])))) \<and>
      (\<forall>r\<in>set (snd (assets_sendMessage P isCompact net override st)).
          req_history r = history_of st))"
proof -
  note a = sendMessage_history [OF refl refl, where st = st and P = P and now = now and net = net and tx = tx]
  note b = assets_sendMessage_history [OF refl refl refl, where st = st and override = override and P = P
      and isCompact = isCompact and net = net]
  have ra: "\<forall>r\<in>set (snd (sendMessage P now net tx st)). req_history r = history_of st"
    by (cases "trim tx = [] \<or> streaming st")
       (auto simp: sendMessage_def Let_def history_of_def split: prod.splits)
  have rb: "\<forall>r\<in>set (snd (assets_sendMessage P isCompact net override st)).
          req_history r = history_of st"
    by (cases "trim (case override of None \<Rightarrow> input st | Some s \<Rightarrow> s) = [] \<or> streaming st")
       (auto simp: assets_sendMessage_def Let_def history_of_def split: prod.splits)
  show ?thesis
    unfolding Let_def history_of_def
    using history_cases_bound(3,5) [where a = "\<lambda>r. \<lparr>role = ''assistant'', content = r\<rparr>", OF a]
      history_cases_bound(3,5) [where a = "\<lambda>r. \<lparr>role = ''assistant'', content = r\<rparr>", OF b]
      ra [unfolded history_of_def] rb [unfolded history_of_def]
    by blast
qed

theorem history_never_mutated_witness:
  "heap (history_state 2) = [[old_entry, old_entry]] \<and>
   heap (fst (sendMessage example_parse 0 (one_chunk [message_line, done_line]) ''hi''
       (history_state 2))) ! 0 = [old_entry, old_entry] \<and>
   historyRef (fst (sendMessage example_parse 0 (one_chunk [message_line, done_line]) ''hi''
       (history_state 2))) = 2 \<and>
   snd (sendMessage example_parse 0 (one_chunk [message_line, done_line]) ''hi'' (history_state 2))
     = [\<lparr>req_message = ''hi'', req_history = [old_entry, old_entry]\<rparr>] \<and>
   heap (fst (assets_sendMessage example_parse False (one_chunk [message_line, done_line])
       (Some ''hi'') (history_state 2))) ! 0 = [old_entry, old_entry] \<and>
   historyRef (fst (assets_sendMessage example_parse False (one_chunk [message_line, done_line])
       (Some ''hi'') (history_state 2))) = 2 \<and>
   snd (assets_sendMessage example_parse False (one_chunk [message_line, done_line])
       (Some ''hi'') (history_state 2))
     = [\<lparr>req_message = ''hi'', req_history = [old_entry, old_entry]\<rparr>]"
proof -
  have 1: "heap (history_state 2) = [[old_entry, old_entry]]"
    by (simp add: history_state_def initial_def numeral_2_eq_2)
  have 2: "history_of (history_state 2) = [old_entry, old_entry]"
    by (simp add: history_of_def deref_def history_state_def initial_def numeral_2_eq_2)
  have 3: "historyRef (fst (sendMessage example_parse 0 (one_chunk [message_line, done_line]) ''hi''
       (history_state 2))) = 2" by code_simp
  have 4: "historyRef (fst (assets_sendMessage example_parse False (one_chunk [message_line, done_line])
       (Some ''hi'') (history_state 2))) = 2" by code_simp
  have 5: "snd (sendMessage example_parse 0 (one_chunk [message_line, done_line]) ''hi'' (history_state 2))
     = [\<lparr>req_message = ''hi'', req_history = [old_entry, old_entry]\<rparr>]" by code_simp
  have 6: "snd (assets_sendMessage example_parse False (one_chunk [message_line, done_line])
       (Some ''hi'') (history_state 2))
     = [\<lparr>req_message = ''hi'', req_history = [old_entry, old_entry]\<rparr>]" by code_simp
  show ?thesis
    using history_never_mutated [where st = "history_state 2" and P = example_parse and now = 0
        and net = "one_chunk [message_line, done_line]" and tx = "''hi''" and isCompact = False
        and override = "Some ''hi''"]
    by (simp add: 1 2 3 4 5 6 Let_def)
qed

section \<open>The stream as a sequence of frames\<close>

lemma split_lines_no_lf: "CHR 0x0A \<notin> set s \<Longrightarrow> split_lines s = [s]"
  by (induction s) (auto split: list.splits)

lemma last_split_lines_no_lf: "CHR 0x0A \<notin> set (last (split_lines s))"
proof (induction s)
  case Nil
  show ?case by simp
next
  case (Cons c cs)
  obtain l ls where X: "split_lines cs = l # ls" by (cases "split_lines cs") auto
  show ?case using Cons X by (cases ls) auto
qed

lemma butlast_split_lines_append:
  "butlast (split_lines (a @ b)) =
     butlast (split_lines a) @ butlast (split_lines (last (split_lines a) @ b))"
  by (simp add: split_lines_append [of a b] butlast_append)

lemma read_loop_done: "doneSignal L \<Longrightarrow> read_loop P aid cs e buf L = (L, None)"
  by (cases cs) simp_all

lemma for_lines_append:
  "\<not> doneSignal L \<Longrightarrow>
   for_lines P aid (xs @ ys) L =
     (let L' = for_lines P aid xs L in if doneSignal L' then L' else for_lines P aid ys L')"
  by (induction xs arbitrary: L) (simp_all add: Let_def)

text \<open>
  The stream loop of \<^verbatim>\<open>App.jsx\<close> runs the line loop over the frames of the stream; how
  the stream is cut into chunks makes no difference.
\<close>

lemma read_loop_lines:
  "\<not> doneSignal L \<Longrightarrow> CHR 0x0A \<notin> set buf \<Longrightarrow>
   fst (read_loop P aid cs e buf L) = for_lines P aid (butlast (split_lines (buf @ concat cs))) L"
proof (induction cs arbitrary: buf L)
  case Nil
  then show ?case by (simp add: split_lines_no_lf split: stream_end.splits)
next
  case (Cons v cs)
  define L' where "L' = for_lines P aid (butlast (split_lines (buf @ v))) L"
  define buf' where "buf' = last (split_lines (buf @ v))"
  have lhs: "fst (read_loop P aid (v # cs) e buf L) = fst (read_loop P aid cs e buf' L')"
    using Cons.prems by (simp add: Let_def L'_def buf'_def)
  have rhs: "for_lines P aid (butlast (split_lines (buf @ concat (v # cs)))) L =
      (if doneSignal L' then L' else for_lines P aid (butlast (split_lines (buf' @ concat cs))) L')"
    using butlast_split_lines_append [of "buf @ v" "concat cs"] for_lines_append [OF Cons.prems(1)]
    by (simp add: L'_def buf'_def Let_def)
  show ?case
  proof (cases "doneSignal L'")
    case True
    then show ?thesis using lhs rhs by (simp add: read_loop_done)
  next
    case False
    have "CHR 0x0A \<notin> set buf'" unfolding buf'_def by (rule last_split_lines_no_lf)
    then show ?thesis using lhs rhs False Cons.IH [of L' buf'] by simp
  qed
qed

lemma read_loop_thrown:
  "snd (read_loop P aid cs e buf L) =
     (if doneSignal (fst (read_loop P aid cs e buf L)) then None
      else (case e of EndOfStream \<Rightarrow> None | ReadRejected m \<Rightarrow> Some m))"
proof (induction cs arbitrary: buf L)
  case Nil
  show ?case by (simp split: stream_end.splits)
next
  case (Cons v cs)
  show ?case
    using Cons.IH [of "last (split_lines (buf @ v))" "for_lines P aid (butlast (split_lines (buf @ v))) L"]
    by (simp add: Let_def)
qed

lemma assets_lines_append:
  "assets_lines P (xs @ ys) L =
     (case assets_lines P xs L of
        (L', None) \<Rightarrow> assets_lines P ys L'
      | (L', Some m) \<Rightarrow> (L', Some m))"
  by (induction xs arbitrary: L) (auto split: prod.splits option.splits)

lemma assets_read_loop_lines:
  "CHR 0x0A \<notin> set buf \<Longrightarrow>
   assets_read_loop P cs e buf L =
     (case assets_lines P (butlast (split_lines (buf @ concat cs))) L of
        (L', None) \<Rightarrow> (L', case e of EndOfStream \<Rightarrow> None | ReadRejected m \<Rightarrow> Some m)
      | (L', Some m) \<Rightarrow> (L', Some m))"
proof (induction cs arbitrary: buf L)
  case Nil
  then show ?case by (simp add: split_lines_no_lf split: stream_end.splits)
next
  case (Cons v cs)
  have n: "CHR 0x0A \<notin> set (last (split_lines (buf @ v)))" by (rule last_split_lines_no_lf)
  show ?case
    using butlast_split_lines_append [of "buf @ v" "concat cs"]
      assets_lines_append [of P "butlast (split_lines (buf @ v))"
        "butlast (split_lines (last (split_lines (buf @ v)) @ concat cs))" L]
      Cons.IH [OF n]
    by (auto simp: Let_def split: prod.splits option.splits)
qed

section \<open>Malformed frames\<close>

lemma for_lines_skip_malformed:
  "\<not> doneSignal L \<Longrightarrow> malformed_frame P line \<Longrightarrow>
   for_lines P aid (line # post) L = for_lines P aid post L"
  by (auto simp: malformed_frame_def try_frame_def Let_def)

lemma assets_frame_malformed:
  "assets_malformed_frame P line \<Longrightarrow> assets_frame P line L = (L, None)"
  by (auto simp: assets_malformed_frame_def assets_frame_def Let_def)

text \<open>
  Claim C9. A frame that does not begin with \<^verbatim>\<open>data: \<close>, or whose payload
  \<^verbatim>\<open>JSON.parse\<close> rejects, is skipped: processing it alone leaves the state and the locals
  of the loop as they were and throws nothing, and a sequence of frames that contains it
  is processed exactly as the sequence without it, so the frames after it are processed
  as if it had not been there. The payload is the text the code parses: the rest of the
  line in \<^verbatim>\<open>App.jsx\<close>, the trimmed rest of the line in \<^verbatim>\<open>assets/app.jsx\<close>. The line loop
  of \<^verbatim>\<open>App.jsx\<close> only runs while \<^verbatim>\<open>doneSignal\<close> is unset, which the statement assumes.
\<close>

theorem malformed_frames_skipped:
  "(\<not> doneSignal L \<and> malformed_frame P line \<longrightarrow>
      for_lines P aid [line] L = L \<and>
      for_lines P aid (pre @ line # post) L = for_lines P aid (pre @ post) L)
   \<and> (assets_malformed_frame P line \<longrightarrow>
      assets_lines P [line] La = (La, None) \<and>
      assets_lines P (pre @ line # post) La = assets_lines P (pre @ post) La)"
proof (intro conjI impI)
  assume a: "\<not> doneSignal L \<and> malformed_frame P line"
  show "for_lines P aid [line] L = L"
    using a for_lines_skip_malformed [of L P line aid "[]"] by simp
  have "for_lines P aid (line # post) L' = for_lines P aid post L'" if "\<not> doneSignal L'" for L'
    using that a for_lines_skip_malformed by blast
  then show "for_lines P aid (pre @ line # post) L = for_lines P aid (pre @ post) L"
    using a by (simp add: for_lines_append Let_def)
next
  assume b: "assets_malformed_frame P line"
  show "assets_lines P [line] La = (La, None)"
    using b by (simp add: assets_frame_malformed)
  have sk: "assets_lines P (line # post) L' = assets_lines P post L'" for L'
    using b by (simp add: assets_frame_malformed)
  show "assets_lines P (pre @ line # post) La = assets_lines P (pre @ post) La"
    by (simp only: assets_lines_append sk)
qed

theorem malformed_frames_skipped_witness:
  "\<not> doneSignal example_locals \<and> malformed_frame example_parse '': keep-alive'' \<and>
   malformed_frame example_parse ''data: {broken'' \<and>
   for_lines example_parse (AssistantId 0) ['': keep-alive'', ''data: {broken'', result_line]
       example_locals
     = for_lines example_parse (AssistantId 0) [result_line] example_locals \<and>
   traces (ui (for_lines example_parse (AssistantId 0)
       ['': keep-alive'', ''data: {broken'', result_line] example_locals))
     = [open_call\<lparr>resolved := True, itemCount := Some (JNum 5)\<rparr>] \<and>
   assets_malformed_frame example_parse ''data:   {broken  '' \<and>
   assets_lines example_parse [''data:   {broken  '', result_line] assets_example_locals
     = assets_lines example_parse [result_line] assets_example_locals \<and>
   traces (ui_a (fst (assets_lines example_parse [''data:   {broken  '', result_line]
       assets_example_locals)))
     = [open_call\<lparr>type := ''tool_call'', resolved := True, itemCount := Some (JNum 5)\<rparr>]"
proof -
  have 1: "\<not> doneSignal example_locals" by (simp add: example_locals_def)
  have 2: "malformed_frame example_parse '': keep-alive''"
    by (simp add: malformed_frame_def startsWith_def)
  have 3: "malformed_frame example_parse ''data: {broken''"
    by (simp add: malformed_frame_def startsWith_def example_parse_def)
  have 4: "assets_malformed_frame example_parse ''data:   {broken  ''"
    by (simp add: assets_malformed_frame_def startsWith_def example_parse_def trim_def
          is_space_def)
  have 5: "traces (ui (for_lines example_parse (AssistantId 0) [result_line] example_locals))
     = [open_call\<lparr>resolved := True, itemCount := Some (JNum 5)\<rparr>]"
    by code_simp
  have 6: "traces (ui_a (fst (assets_lines example_parse [result_line] assets_example_locals)))
     = [open_call\<lparr>type := ''tool_call'', resolved := True, itemCount := Some (JNum 5)\<rparr>]"
    by code_simp
  have a: "for_lines example_parse (AssistantId 0) ['': keep-alive'', ''data: {broken'', result_line]
       example_locals
     = for_lines example_parse (AssistantId 0) [''data: {broken'', result_line] example_locals"
    using malformed_frames_skipped [where L = example_locals and P = example_parse
        and line = "'': keep-alive''" and aid = "AssistantId 0" and pre = "[]"
        and post = "[''data: {broken'', result_line]"] 1 2
    by simp
  have b: "for_lines example_parse (AssistantId 0) [''data: {broken'', result_line] example_locals
     = for_lines example_parse (AssistantId 0) [result_line] example_locals"
    using malformed_frames_skipped [where L = example_locals and P = example_parse
        and line = "''data: {broken''" and aid = "AssistantId 0" and pre = "[]"
        and post = "[result_line]"] 1 3
    by simp
  have c: "assets_lines example_parse [''data:   {broken  '', result_line] assets_example_locals
     = assets_lines example_parse [result_line] assets_example_locals"
    using malformed_frames_skipped [where La = assets_example_locals and P = example_parse
        and line = "''data:   {broken  ''" and pre = "[]" and post = "[result_line]"] 4
    by simp
  show ?thesis using 1 2 3 4 5 6 a b c by simp
qed

section \<open>Turns without a final message\<close>

lemma switch_event_final:
  "getprop ev ''type'' \<noteq> Some (JStr ''message'') \<Longrightarrow>
   finalContent (switch_event aid ev L) = finalContent L"
  by (simp add: switch_event_def Let_def)

lemma try_frame_final:
  "startsWith line ''data: '' \<Longrightarrow> \<not> frame_of_type P ''message'' line \<Longrightarrow>
   finalContent (try_frame P aid line L) = finalContent L"
  by (auto simp: try_frame_def frame_of_type_def switch_event_final split: option.splits)

lemma for_lines_final:
  "list_all (\<lambda>l. \<not> frame_of_type P ''message'' l) ls \<Longrightarrow>
   finalContent (for_lines P aid ls L) = finalContent L"
proof (induction ls arbitrary: L)
  case Nil
  show ?case by simp
next
  case (Cons l ls)
  then show ?case
    using try_frame_final [of l P aid L] by (auto simp: Let_def)
qed

lemma try_block_final:
  assumes "no_message_event P net" "\<not> doneSignal L"
  shows "finalContent (fst (try_block P aid net L)) = finalContent L"
proof (cases net)
  case (FetchRejected m)
  then show ?thesis by (simp add: try_block_def)
next
  case (FetchResolved res)
  show ?thesis
  proof (cases "ok res")
    case False
    then show ?thesis using FetchResolved by (simp add: try_block_def)
  next
    case True
    show ?thesis
    proof (cases "body res")
      case None
      then show ?thesis using FetchResolved True by (simp add: try_block_def)
    next
      case (Some b)
      obtain chunks e where b: "b = (chunks, e)" by (cases b)
      have "list_all (\<lambda>l. \<not> frame_of_type P ''message'' l) (stream_lines chunks)"
        using assms(1) FetchResolved True Some b by (simp add: no_message_event_def)
      then have "finalContent (for_lines P aid (butlast (split_lines ([] @ concat chunks))) L)
          = finalContent L"
        using for_lines_final by (simp add: stream_lines_def)
      then show ?thesis
        using FetchResolved True Some b read_loop_lines [OF assms(2), of "[]" P aid chunks e]
        by (simp add: try_block_def)
    qed
  qed
qed

lemma assets_frame_reply:
  "\<not> assets_frame_of_type P ''message'' line \<Longrightarrow>
   assistantReply (fst (assets_frame P line L)) = assistantReply L"
  by (auto simp: assets_frame_def assets_frame_of_type_def Let_def split: option.splits)

lemma assets_lines_reply:
  "list_all (\<lambda>l. \<not> assets_frame_of_type P ''message'' l) ls \<Longrightarrow>
   assistantReply (fst (assets_lines P ls L)) = assistantReply L"
proof (induction ls arbitrary: L)
  case Nil
  show ?case by simp
next
  case (Cons l ls)
  then show ?case
    using assets_frame_reply [of P l L]
    by (cases "assets_frame P l L") (auto split: option.splits)
qed

lemma assets_try_block_reply:
  assumes "assets_no_message_event P net"
  shows "assistantReply (fst (assets_try_block P net L)) = assistantReply L"
proof (cases net)
  case (FetchRejected m)
  then show ?thesis by (simp add: assets_try_block_def)
next
  case (FetchResolved res)
  show ?thesis
  proof (cases "ok res")
    case False
    then show ?thesis using FetchResolved by (simp add: assets_try_block_def)
  next
    case True
    show ?thesis
    proof (cases "body res")
      case None
      then show ?thesis using FetchResolved True by (simp add: assets_try_block_def)
    next
      case (Some b)
      obtain chunks e where b: "b = (chunks, e)" by (cases b)
      have "list_all (\<lambda>l. \<not> assets_frame_of_type P ''message'' l) (stream_lines chunks)"
        using assms FetchResolved True Some b by (simp add: assets_no_message_event_def)
      then have "assistantReply (fst (assets_lines P (butlast (split_lines ([] @ concat chunks))) L))
          = assistantReply L"
        using assets_lines_reply by (simp add: stream_lines_def)
      then show ?thesis
        using FetchResolved True Some b assets_read_loop_lines [of "[]" P chunks e L]
        by (auto simp: assets_try_block_def split: prod.splits option.splits)
    qed
  qed
qed

text \<open>
  Claim C8. When the turn has no \<^verbatim>\<open>message\<close> event (the request is rejected, the
  response is not \<^verbatim>\<open>ok\<close> or has no body, or no frame of the stream is a \<^verbatim>\<open>message\<close>
  event, however the stream ends), the history after \<^verbatim>\<open>sendMessage\<close> is the history
  before it: the same reference into an unchanged store.
\<close>

theorem history_unchanged_without_message:
  "(no_message_event P net \<longrightarrow>
      heap (fst (sendMessage P now net tx st)) = heap st \<and>
      historyRef (fst (sendMessage P now net tx st)) = historyRef st \<and>
      history_of (fst (sendMessage P now net tx st)) = history_of st)
   \<and> (assets_no_message_event P net \<longrightarrow>
      heap (fst (assets_sendMessage P isCompact net override st)) = heap st \<and>
      historyRef (fst (assets_sendMessage P isCompact net override st)) = historyRef st \<and>
      history_of (fst (assets_sendMessage P isCompact net override st)) = history_of st)"
proof (rule conjI; rule impI)
  assume a: "no_message_event P net"
  have "heap (fst (sendMessage P now net tx st)) = heap st \<and>
      historyRef (fst (sendMessage P now net tx st)) = historyRef st"
  proof (cases "trim tx = [] \<or> streaming st")
    case True
    then show ?thesis by (simp add: sendMessage_noop)
  next
    case False
    have f: "finalContent (fst (try_block P (AssistantId now) net (turn_start now (trim tx) st)))
        = Some (JStr [])"
      using try_block_final [OF a, of "turn_start now (trim tx) st" "AssistantId now"]
      by (simp add: turn_start_def)
    show ?thesis
      using sendMessage_run [of tx st P now net] False f
      by (auto simp: finally_block_def Let_def)
  qed
  then show "heap (fst (sendMessage P now net tx st)) = heap st \<and>
      historyRef (fst (sendMessage P now net tx st)) = historyRef st \<and>
      history_of (fst (sendMessage P now net tx st)) = history_of st"
    by (simp add: history_of_def)
next
  assume b: "assets_no_message_event P net"
  define t where "t = trim (case override of None \<Rightarrow> input st | Some s \<Rightarrow> s)"
  have "heap (fst (assets_sendMessage P isCompact net override st)) = heap st \<and>
      historyRef (fst (assets_sendMessage P isCompact net override st)) = historyRef st"
  proof (cases "t = [] \<or> streaming st")
    case True
    then show ?thesis by (auto simp: assets_sendMessage_def t_def)
  next
    case False
    have f: "assistantReply (fst (assets_try_block P net (assets_turn_start isCompact t st)))
        = Some (JStr [])"
      using assets_try_block_reply [OF b, of "assets_turn_start isCompact t st"]
      by (simp add: assets_turn_start_def Let_def)
    show ?thesis
      using assets_sendMessage_run [where override = override and st = st and tx = t and P = P
          and isCompact = isCompact and net = net] False f
      by (auto simp: assets_turn_end_def Let_def t_def)
  qed
  then show "heap (fst (assets_sendMessage P isCompact net override st)) = heap st \<and>
      historyRef (fst (assets_sendMessage P isCompact net override st)) = historyRef st \<and>
      history_of (fst (assets_sendMessage P isCompact net override st)) = history_of st"
    by (simp add: history_of_def)
qed

theorem history_unchanged_without_message_witness:
  "no_message_event example_parse (one_chunk [call_line, error_line, done_line]) \<and>
   history_of (fst (sendMessage example_parse 0 (one_chunk [call_line, error_line, done_line])
       ''hi'' (history_state 2))) = [old_entry, old_entry] \<and>
   streaming (fst (sendMessage example_parse 0 (one_chunk [call_line, error_line, done_line])
       ''hi'' (history_state 2))) = False \<and>
   length (messages (fst (sendMessage example_parse 0
       (one_chunk [call_line, error_line, done_line]) ''hi'' (history_state 2)))) = 2 \<and>
   assets_no_message_event example_parse (FetchRejected ''Failed to fetch'') \<and>
   history_of (fst (assets_sendMessage example_parse False (FetchRejected ''Failed to fetch'')
       (Some ''hi'') (history_state 2))) = [old_entry, old_entry] \<and>
   length (messages (fst (assets_sendMessage example_parse False
       (FetchRejected ''Failed to fetch'') (Some ''hi'') (history_state 2)))) = 2"
proof -
  have 1: "no_message_event example_parse (one_chunk [call_line, error_line, done_line])"
    by code_simp
  have 2: "assets_no_message_event example_parse (FetchRejected ''Failed to fetch'')"
    by (simp add: assets_no_message_event_def)
  have 3: "history_of (history_state 2) = [old_entry, old_entry]"
    by (simp add: history_of_def deref_def history_state_def initial_def numeral_2_eq_2)
  have 4: "streaming (fst (sendMessage example_parse 0 (one_chunk [call_line, error_line, done_line])
       ''hi'' (history_state 2))) = False" by code_simp
  have 5: "length (messages (fst (sendMessage example_parse 0
       (one_chunk [call_line, error_line, done_line]) ''hi'' (history_state 2)))) = 2"
    by code_simp
  have 6: "length (messages (fst (assets_sendMessage example_parse False
       (FetchRejected ''Failed to fetch'') (Some ''hi'') (history_state 2)))) = 2"
    by code_simp
  show ?thesis
    using history_unchanged_without_message [where P = example_parse
        and net = "one_chunk [call_line, error_line, done_line]" and now = 0 and tx = "''hi''"
        and st = "history_state 2"]
      history_unchanged_without_message [where P = example_parse
        and net = "FetchRejected ''Failed to fetch''" and isCompact = False
        and override = "Some ''hi''" and st = "history_state 2"]
      1 2 3 4 5 6
    by simp
qed

section \<open>Which call a result resolves\<close>

lemma patch_map_patched: "patch_map ev True ts = ts"
  by (induction ts) simp_all

text \<open>\<^verbatim>\<open>App.jsx\<close>: the first entry that awaits the result is resolved, and only that one.\<close>

lemma patch_map_first:
  "i < length ts \<Longrightarrow> awaits_result ev (ts ! i) \<Longrightarrow> \<forall>j<i. \<not> awaits_result ev (ts ! j) \<Longrightarrow>
   patch_map ev False ts =
     ts[i := (ts ! i)\<lparr>resolved := True, itemCount := getprop ev ''item_count'',
                      dataQuality := getprop ev ''data_quality''\<rparr>]"
proof (induction ts arbitrary: i)
  case Nil
  then show ?case by simp
next
  case (Cons t ts)
  show ?case
  proof (cases i)
    case 0
    then show ?thesis using Cons.prems by (simp add: awaits_result_def patch_map_patched)
  next
    case (Suc k)
    have n: "\<not> awaits_result ev t" using Cons.prems(3) Suc by auto
    have "\<forall>j<k. \<not> awaits_result ev (ts ! j)" using Cons.prems(3) Suc by auto
    then have "patch_map ev False ts =
        ts[k := (ts ! k)\<lparr>resolved := True, itemCount := getprop ev ''item_count'',
                         dataQuality := getprop ev ''data_quality''\<rparr>]"
      using Cons.IH [of k] Cons.prems Suc by simp
    then show ?thesis using n Suc by (auto simp: awaits_result_def)
  qed
qed

lemma patch_map_none:
  "\<forall>t\<in>set ts. \<not> awaits_result ev t \<Longrightarrow> patch_map ev False ts = ts"
  by (induction ts) (auto simp: awaits_result_def)

text \<open>
  \<^verbatim>\<open>assets/app.jsx\<close>: the last entry that awaits the result is resolved; a result no entry
  awaits becomes an entry of its own.
\<close>

lemma addTraceResult_last:
  assumes "i < length (traces st)" "assets_awaits_result ev (traces st ! i)"
    and "\<forall>j. i < j \<and> j < length (traces st) \<longrightarrow> \<not> assets_awaits_result ev (traces st ! j)"
  shows "traces (addTraceResult ev st) =
     (traces st)[i := (traces st ! i)\<lparr>resolved := True,
        itemCount := or_default (getprop ev ''item_count'') (Some (JNum 0))\<rparr>]"
proof -
  define k where "k = findIndex (assets_awaits_result ev) (rev (traces st))"
  define target where "target = nat (int (length (traces st)) - 1 - k)"
  have k: "k \<noteq> - 1"
  proof
    assume "k = - 1"
    then have "\<forall>x\<in>set (rev (traces st)). \<not> assets_awaits_result ev x"
      using findIndex_from_none [of 0 "assets_awaits_result ev" "rev (traces st)"]
      by (simp add: k_def findIndex_def)
    then show False using assms(1,2) by (metis nth_mem set_rev)
  qed
  have t: "target < length (traces st)" "assets_awaits_result ev (traces st ! target)"
    "\<forall>j. target < j \<and> j < length (traces st) \<longrightarrow> \<not> assets_awaits_result ev (traces st ! j)"
    using findIndex_rev_last [of "assets_awaits_result ev" "traces st" k] k
    unfolding k_def target_def by auto
  have "target = i"
  proof (rule ccontr)
    assume "target \<noteq> i"
    then consider "target < i" | "i < target" by linarith
    then show False
    proof cases
      case 1
      then show ?thesis using t(3) assms(1,2) by blast
    next
      case 2
      then show ?thesis using assms(3) t(1,2) by blast
    qed
  qed
  moreover have "traces (addTraceResult ev st) =
     (traces st)[target := (traces st ! target)\<lparr>resolved := True,
        itemCount := or_default (getprop ev ''item_count'') (Some (JNum 0))\<rparr>]"
    using k unfolding k_def target_def assets_awaits_result_def
    by (simp add: addTraceResult_def Let_def)
  ultimately show ?thesis by simp
qed

lemma addTraceResult_none:
  assumes "\<forall>t\<in>set (traces st). \<not> assets_awaits_result ev t"
  shows "butlast (traces (addTraceResult ev st)) = traces st"
    and "type (last (traces (addTraceResult ev st))) = ''tool_result''"
proof -
  define k where "k = findIndex (assets_awaits_result ev) (rev (traces st))"
  have "k = - 1"
  proof (rule ccontr)
    assume "k \<noteq> - 1"
    then have "nat (int (length (traces st)) - 1 - k) < length (traces st)"
      "assets_awaits_result ev (traces st ! nat (int (length (traces st)) - 1 - k))"
      using findIndex_rev_last [of "assets_awaits_result ev" "traces st" k] unfolding k_def by auto
    then show False using assms by (metis nth_mem)
  qed
  then have e: "findIndex (\<lambda>item. type item = ''tool_call'' \<and> \<not> resolved item
               \<and> strict_eq (name item) (getprop ev ''name'')) (rev (traces st)) = - 1"
    unfolding k_def assets_awaits_result_def by simp
  show "butlast (traces (addTraceResult ev st)) = traces st"
    using e by (simp add: addTraceResult_def Let_def)
  show "type (last (traces (addTraceResult ev st))) = ''tool_result''"
    using e by (simp add: addTraceResult_def Let_def)
qed

text \<open>
  Claim C1. With two calls of \<^verbatim>\<open>query_deals_board\<close> open and one result for that tool,
  \<^verbatim>\<open>App.jsx\<close> resolves the earlier call and \<^verbatim>\<open>assets/app.jsx\<close> the later one.
\<close>

theorem result_resolves_latest_call_in_assets:
  "map resolved (traces (fst (sendMessage example_parse 0
       (one_chunk [call_line, call_line, result_line]) ''hi'' initial))) = [True, False]
   \<and> map resolved (traces (fst (assets_sendMessage example_parse False
       (one_chunk [call_line, call_line, result_line]) (Some ''hi'') initial))) = [False, True]"
  by code_simp

section \<open>Frames after the end marker\<close>

text \<open>\<^verbatim>\<open>App.jsx\<close>: nothing after a \<^verbatim>\<open>done\<close> frame is processed.\<close>

lemma for_lines_done:
  "frame_of_type P ''done'' line \<Longrightarrow>
   for_lines P aid (line # post) L = L\<lparr>doneSignal := True\<rparr>"
  by (auto simp: frame_of_type_def try_frame_def switch_event_def Let_def split: option.splits)

lemma done_frame_terminal:
  assumes "\<not> doneSignal L" "frame_of_type P ''done'' line"
  shows "for_lines P aid (pre @ line # post) L = for_lines P aid (pre @ [line]) L"
proof -
  have sk: "for_lines P aid (line # post) L' = for_lines P aid [line] L'" for L'
    using assms(2) by (simp only: for_lines_done)
  have a: "for_lines P aid (pre @ line # post) L =
      (let L' = for_lines P aid pre L
       in if doneSignal L' then L' else for_lines P aid (line # post) L')"
    by (rule for_lines_append [OF assms(1)])
  have b: "for_lines P aid (pre @ [line]) L =
      (let L' = for_lines P aid pre L
       in if doneSignal L' then L' else for_lines P aid [line] L')"
    by (rule for_lines_append [OF assms(1)])
  show ?thesis by (simp only: a b sk)
qed

lemma read_loop_done_terminal:
  assumes "\<not> doneSignal L" "frame_of_type P ''done'' line"
    and "stream_lines chunks = pre @ line # post"
  shows "read_loop P aid chunks e [] L = (for_lines P aid (pre @ [line]) L, None)"
proof -
  have f: "fst (read_loop P aid chunks e [] L) = for_lines P aid (pre @ [line]) L"
    using read_loop_lines [OF assms(1), of "[]" P aid chunks e] assms(3)
      done_frame_terminal [OF assms(1,2), of aid pre post]
    by (simp add: stream_lines_def)
  have d: "for_lines P aid [line] L' = L'\<lparr>doneSignal := True\<rparr>" for L'
    using assms(2) by (rule for_lines_done)
  have "for_lines P aid (pre @ [line]) L =
      (let L' = for_lines P aid pre L
       in if doneSignal L' then L' else for_lines P aid [line] L')"
    by (rule for_lines_append [OF assms(1)])
  then have "doneSignal (for_lines P aid (pre @ [line]) L)"
    by (simp only: d Let_def) simp
  then have "snd (read_loop P aid chunks e [] L) = None"
    using f read_loop_thrown [of P aid chunks e "[]" L] by simp
  then show ?thesis using f by (metis prod.collapse)
qed

text \<open>
  Claim C2. \<^verbatim>\<open>App.jsx\<close> leaves the stream loop at the \<^verbatim>\<open>done\<close> frame: the frames after it change
  nothing. The loop of \<^verbatim>\<open>assets/app.jsx\<close> has no exit there: a \<^verbatim>\<open>tool_call\<close> frame after
  \<^verbatim>\<open>done\<close> adds a trace entry, and a \<^verbatim>\<open>message\<close> frame after it adds a chat message and
  goes into the history.
\<close>

theorem assets_processes_frames_after_done:
  "sendMessage example_parse 0 (one_chunk [done_line, call_line, message_line]) ''hi'' initial
     = sendMessage example_parse 0 (one_chunk [done_line]) ''hi'' initial
   \<and> traces (fst (assets_sendMessage example_parse False (one_chunk [done_line])
        (Some ''hi'') initial)) = []
   \<and> history_of (fst (assets_sendMessage example_parse False (one_chunk [done_line])
        (Some ''hi'') initial)) = []
   \<and> map type (traces (fst (assets_sendMessage example_parse False
        (one_chunk [done_line, call_line, message_line]) (Some ''hi'') initial)))
        = [''tool_call'']
   \<and> map content (messages (fst (assets_sendMessage example_parse False
        (one_chunk [done_line, call_line, message_line]) (Some ''hi'') initial)))
        = [Some (JStr ''hi''), Some (JStr ''ok'')]
   \<and> history_of (fst (assets_sendMessage example_parse False
        (one_chunk [done_line, call_line, message_line]) (Some ''hi'') initial))
        = [\<lparr>role = ''user'', content = Some (JStr ''hi'')\<rparr>,
           \<lparr>role = ''assistant'', content = Some (JStr ''ok'')\<rparr>]"
  by code_simp

section \<open>Board counts\<close>



section \<open>One call run without interruption\<close>

lemma app_run_append: "app_run P (xs @ ys) s = app_run P ys (app_run P xs s)"
  by (induction xs arbitrary: s) simp_all

lemma assets_run_append: "assets_run P (xs @ ys) s = assets_run P ys (assets_run P xs s)"
  by (induction xs arbitrary: s) simp_all

lemma app_run_not_reading:
  "\<not> (i < length (tasks s) \<and> t_phase (tasks s ! i) = Reading) \<Longrightarrow>
   app_run P (map (Chunk i) cs @ [Ended i e]) s = s"
  by (induction cs) (auto simp: app_step_def)

lemma assets_run_not_reading:
  "\<not> (i < length (tasks s) \<and> t_phase (tasks s ! i) = Reading) \<Longrightarrow>
   assets_run P (map (Chunk i) cs @ [Ended i e]) s = s"
  by (induction cs) (auto simp: assets_step_def)

lemma app_finish_phase:
  "i < length (tasks s) \<Longrightarrow> t_phase (tasks (app_finish i thrown s) ! i) = Finished"
  by (simp add: app_finish_def Let_def)

lemma assets_finish_phase:
  "i < length (tasks s) \<Longrightarrow> t_phase (tasks (assets_finish i thrown s) ! i) = Finished"
  by (simp add: assets_finish_def Let_def)

lemma app_finish_length [simp]: "length (tasks (app_finish i thrown s)) = length (tasks s)"
  by (simp add: app_finish_def Let_def)

lemma assets_finish_length [simp]: "length (tasks (assets_finish i thrown s)) = length (tasks s)"
  by (simp add: assets_finish_def Let_def)

text \<open>
  The steps of a task that reads its stream, with nothing in between, do what the
  stream loop, the \<^verbatim>\<open>catch\<close> block and the \<^verbatim>\<open>finally\<close> block do.
\<close>

lemma app_run_reading:
  assumes "i < length (tasks s)" "t_phase (tasks s ! i) = Reading" "\<not> t_flag (tasks s ! i)"
  shows "s_ui (app_run P (map (Chunk i) cs @ [Ended i e]) s) =
      (case read_loop P (t_aid (tasks s ! i)) cs e (t_buffer (tasks s ! i))
              \<lparr>ui = s_ui s, finalContent = t_reply (tasks s ! i), doneSignal = False\<rparr> of
         (L, thrown) \<Rightarrow>
           finally_block (t_text (tasks s ! i)) (finalContent L)
             (case thrown of
                None \<Rightarrow> ui L
              | Some m \<Rightarrow> catch_block (t_aid (tasks s ! i)) m (ui L)))"
  using assms
proof (induction cs arbitrary: s)
  case Nil
  then show ?case
    by (simp add: app_step_def app_finish_def Let_def split: stream_end.splits)
next
  case (Cons v cs)
  define t where "t = tasks s ! i"
  define lines where "lines = split_lines (t_buffer t @ v)"
  define L where "L = for_lines P (t_aid t) (butlast lines)
      \<lparr>ui = s_ui s, finalContent = t_reply t, doneSignal = False\<rparr>"
  define s' where "s' = s\<lparr>s_ui := ui L,
      tasks := (tasks s)[i := t\<lparr>t_buffer := last lines, t_reply := finalContent L,
                                t_flag := doneSignal L\<rparr>]\<rparr>"
  have flag: "t_flag t = False" using Cons.prems by (simp add: t_def)
  have step: "app_step P (Chunk i v) s = (if doneSignal L then app_finish i None s' else s')"
    using Cons.prems
    by (simp add: app_step_def Let_def s'_def L_def lines_def t_def)
  have rl: "read_loop P (t_aid t) (v # cs) e (t_buffer t)
        \<lparr>ui = s_ui s, finalContent = t_reply t, doneSignal = False\<rparr>
      = read_loop P (t_aid t) cs e (last lines) L"
    by (simp add: Let_def lines_def L_def)
  show ?case
  proof (cases "doneSignal L")
    case True
    have "t_phase (tasks (app_finish i None s') ! i) = Finished"
      using Cons.prems by (simp add: app_finish_phase s'_def)
    then have "app_run P (map (Chunk i) cs @ [Ended i e]) (app_finish i None s')
        = app_finish i None s'"
      by (simp add: app_run_not_reading)
    then show ?thesis
      using True step rl Cons.prems
      by (simp add: t_def [symmetric] read_loop_done app_finish_def s'_def Let_def)
  next
    case False
    have s'i: "tasks s' ! i = t\<lparr>t_buffer := last lines, t_reply := finalContent L,
                                t_flag := doneSignal L\<rparr>"
      using Cons.prems by (simp add: s'_def)
    have p: "i < length (tasks s')" "t_phase (tasks s' ! i) = Reading" "\<not> t_flag (tasks s' ! i)"
      using Cons.prems False by (simp_all add: s'i) (simp_all add: s'_def t_def)
    have L_eq: "\<lparr>ui = ui L, finalContent = finalContent L, doneSignal = False\<rparr> = L"
      using False by simp
    have ih: "s_ui (app_run P (map (Chunk i) cs @ [Ended i e]) s') =
        (case read_loop P (t_aid t) cs e (last lines) L of
           (L', thrown) \<Rightarrow>
             finally_block (t_text t) (finalContent L')
               (case thrown of None \<Rightarrow> ui L' | Some m \<Rightarrow> catch_block (t_aid t) m (ui L')))"
      using Cons.IH [OF p] unfolding s'i
      by (simp add: L_eq cong: option.case_cong prod.case_cong) (simp add: s'_def L_eq)
    have "s_ui (app_run P (map (Chunk i) (v # cs) @ [Ended i e]) s) =
        s_ui (app_run P (map (Chunk i) cs @ [Ended i e]) s')"
      using step False by simp
    then show ?thesis
      unfolding t_def [symmetric] rl ih .
  qed
qed

lemma assets_run_reading:
  assumes "i < length (tasks s)" "t_phase (tasks s ! i) = Reading"
  shows "s_ui (assets_run P (map (Chunk i) cs @ [Ended i e]) s) =
      (case assets_read_loop P cs e (t_buffer (tasks s ! i))
              \<lparr>ui_a = s_ui s, assistantReply = t_reply (tasks s ! i),
               hadError = t_flag (tasks s ! i)\<rparr> of
         (L, thrown) \<Rightarrow>
           assets_turn_end (t_text (tasks s ! i))
             (case thrown of None \<Rightarrow> L | Some m \<Rightarrow> assets_catch_block m L))"
  using assms
proof (induction cs arbitrary: s)
  case Nil
  then show ?case
    by (simp add: assets_step_def assets_finish_def Let_def split: stream_end.splits)
next
  case (Cons v cs)
  define t where "t = tasks s ! i"
  define lines where "lines = split_lines (t_buffer t @ v)"
  define R where "R = assets_lines P (butlast lines)
      \<lparr>ui_a = s_ui s, assistantReply = t_reply t, hadError = t_flag t\<rparr>"
  define L where "L = fst R"
  define s' where "s' = s\<lparr>s_ui := ui_a L,
      tasks := (tasks s)[i := t\<lparr>t_buffer := last lines, t_reply := assistantReply L,
                                t_flag := hadError L\<rparr>]\<rparr>"
  have step: "assets_step P (Chunk i v) s =
      (case snd R of None \<Rightarrow> s' | Some m \<Rightarrow> assets_finish i (Some m) s')"
    using Cons.prems
    by (auto simp add: assets_step_def Let_def s'_def L_def R_def lines_def t_def
          split: prod.splits option.splits)
  have rl: "assets_read_loop P (v # cs) e (t_buffer t)
        \<lparr>ui_a = s_ui s, assistantReply = t_reply t, hadError = t_flag t\<rparr>
      = (case snd R of None \<Rightarrow> assets_read_loop P cs e (last lines) L | Some m \<Rightarrow> (L, Some m))"
    by (simp add: Let_def lines_def L_def R_def split: prod.splits option.splits)
  have s'i: "tasks s' ! i = t\<lparr>t_buffer := last lines, t_reply := assistantReply L,
                              t_flag := hadError L\<rparr>"
    using Cons.prems by (simp add: s'_def)
  have L_eq: "\<lparr>ui_a = ui_a L, assistantReply = assistantReply L, hadError = hadError L\<rparr> = L"
    by simp
  show ?case
  proof (cases "snd R")
    case None
    have p: "i < length (tasks s')" "t_phase (tasks s' ! i) = Reading"
      using Cons.prems by (simp_all add: s'i) (simp_all add: s'_def t_def)
    have ih: "s_ui (assets_run P (map (Chunk i) cs @ [Ended i e]) s') =
        (case assets_read_loop P cs e (last lines) L of
           (L', thrown) \<Rightarrow>
             assets_turn_end (t_text t)
               (case thrown of None \<Rightarrow> L' | Some m \<Rightarrow> assets_catch_block m L'))"
      using Cons.IH [OF p] unfolding s'i
      by (simp add: L_eq cong: option.case_cong prod.case_cong) (simp add: s'_def L_eq)
    have "s_ui (assets_run P (map (Chunk i) (v # cs) @ [Ended i e]) s) =
        s_ui (assets_run P (map (Chunk i) cs @ [Ended i e]) s')"
      using step None by simp
    then show ?thesis
      unfolding t_def [symmetric] rl ih None by simp
  next
    case (Some m)
    have "t_phase (tasks (assets_finish i (Some m) s') ! i) = Finished"
      using Cons.prems by (simp add: assets_finish_phase s'_def)
    then have "assets_run P (map (Chunk i) cs @ [Ended i e]) (assets_finish i (Some m) s')
        = assets_finish i (Some m) s'"
      by (simp add: assets_run_not_reading)
    then have "s_ui (assets_run P (map (Chunk i) (v # cs) @ [Ended i e]) s) =
        s_ui (assets_finish i (Some m) s')"
      using step Some by simp
    also have "\<dots> = assets_turn_end (t_text t) (assets_catch_block m L)"
      using Cons.prems by (simp add: assets_finish_def Let_def s'i L_eq) (simp add: s'_def L_eq)
    finally show ?thesis
      unfolding t_def [symmetric] rl Some by simp
  qed
qed

lemma app_requests_reading:
  "requests (app_run P (map (Chunk i) cs @ [Ended i e]) s) = requests s"
  by (induction cs arbitrary: s)
     (auto simp: app_step_def app_finish_def Let_def split: stream_end.splits)

lemma assets_requests_reading:
  "requests (assets_run P (map (Chunk i) cs @ [Ended i e]) s) = requests s"
  by (induction cs arbitrary: s)
     (auto simp: assets_step_def assets_finish_def Let_def
        split: stream_end.splits prod.splits option.splits)

text \<open>
  A call of \<^verbatim>\<open>sendMessage\<close> followed by all its steps, with nothing in between, is the
  function \<open>sendMessage\<close> of the sections above, whatever else is under way.
\<close>

lemma app_single_turn:
  "s_ui (app_run P (Send (now, tx) # turn_actions (length (tasks s)) net) s)
     = fst (sendMessage P now net tx (s_ui s))"
proof (cases "trim tx = [] \<or> streaming (s_ui s)")
  case True
  then have 1: "app_step P (Send (now, tx)) s = s" by (auto simp: app_step_def)
  have 2: "app_run P (turn_actions (length (tasks s)) net) s = s"
    using app_run_not_reading [of "length (tasks s)" s P]
    by (auto simp: turn_actions_def app_step_def split: fetch_outcome.splits option.splits)
  show ?thesis using True 1 2 by (auto simp: sendMessage_noop)
next
  case False
  define i where "i = length (tasks s)"
  define L0 where "L0 = turn_start now (trim tx) (s_ui s)"
  define t0 where "t0 = \<lparr>t_text = trim tx, t_aid = AssistantId now, t_phase = Fetching,
      t_buffer = [], t_reply = finalContent L0, t_flag = doneSignal L0\<rparr>"
  define s1 where "s1 = app_step P (Send (now, tx)) s"
  have s1: "s_ui s1 = ui L0" "tasks s1 = tasks s @ [t0]"
    using False by (simp_all add: s1_def app_step_def Let_def L0_def t0_def)
  have i: "i < length (tasks s1)" "tasks s1 ! i = t0" by (simp_all add: s1 i_def)
  have l0: "finalContent L0 = Some (JStr [])" "doneSignal L0 = False"
    by (simp_all add: L0_def turn_start_def)
  have L0_eq: "\<lparr>ui = ui L0, finalContent = Some (JStr []), doneSignal = False\<rparr> = L0"
    by (simp add: L0_def turn_start_def)
  have sm: "fst (sendMessage P now net tx (s_ui s)) =
      (case try_block P (AssistantId now) net L0 of
         (L1, thrown) \<Rightarrow>
           finally_block (trim tx) (finalContent L1)
             (case thrown of None \<Rightarrow> ui L1 | Some m \<Rightarrow> catch_block (AssistantId now) m (ui L1)))"
    using False by (simp add: sendMessage_def Let_def L0_def split: prod.splits)
  have fin: "s_ui (app_finish i (Some m) s1) =
      finally_block (trim tx) (Some (JStr [])) (catch_block (AssistantId now) m (ui L0))" for m
    by (simp add: app_finish_def Let_def i) (simp add: s1 t0_def l0)
  have dead: "app_run P (map (Chunk i) cs @ [Ended i e]) (app_finish i th s1)
      = app_finish i th s1" for cs e th
    using i by (simp add: app_run_not_reading app_finish_phase)
  have run: "app_run P (Send (now, tx) # turn_actions (length (tasks s)) net) s
      = app_run P (turn_actions i net) s1"
    by (simp add: s1_def i_def)
  show ?thesis
  proof (cases net)
    case (FetchRejected m)
    then show ?thesis
      unfolding run sm
      by (simp add: turn_actions_def try_block_def app_step_def i t0_def fin [unfolded t0_def] l0)
  next
    case (FetchResolved res)
    show ?thesis
    proof (cases "body res")
      case None
      then show ?thesis
        unfolding run sm using FetchResolved
        by (simp add: turn_actions_def try_block_def app_step_def i t0_def fin [unfolded t0_def] l0)
    next
      case (Some b)
      obtain chunks e where b: "b = (chunks, e)" by (cases b)
      show ?thesis
      proof (cases "ok res")
        case False
        then show ?thesis
          unfolding run sm using FetchResolved Some b
          by (simp add: turn_actions_def try_block_def app_step_def i t0_def dead
                fin [unfolded t0_def] l0)
      next
        case True
        define s2 where "s2 = s1\<lparr>tasks := (tasks s1)[i := t0\<lparr>t_phase := Reading\<rparr>]\<rparr>"
        have s2: "i < length (tasks s2)" "tasks s2 ! i = t0\<lparr>t_phase := Reading\<rparr>"
          "s_ui s2 = ui L0"
          using i by (simp_all add: s2_def s1)
        have st: "app_step P (Fetched i (Head True (status res) True)) s1 = s2"
          using i by (simp add: app_step_def s2_def t0_def)
        have "s_ui (app_run P (map (Chunk i) chunks @ [Ended i e]) s2) =
            (case read_loop P (AssistantId now) chunks e [] L0 of
               (L, thrown) \<Rightarrow>
                 finally_block (trim tx) (finalContent L)
                   (case thrown of None \<Rightarrow> ui L
                    | Some m \<Rightarrow> catch_block (AssistantId now) m (ui L)))"
          using app_run_reading [of i s2 P chunks e] s2
          by (simp add: t0_def l0 L0_eq cong: option.case_cong prod.case_cong)
        then show ?thesis
          unfolding run sm using FetchResolved Some b True st
          by (simp add: turn_actions_def try_block_def)
      qed
    qed
  qed
qed

lemma app_single_turn_requests:
  "requests (app_run P (Send (now, tx) # turn_actions (length (tasks s)) net) s)
     = requests s @ snd (sendMessage P now net tx (s_ui s))"
proof -
  have r: "requests (app_run P (turn_actions i net) s') = requests s'" for i s'
    using app_requests_reading [of P i]
    by (auto simp: turn_actions_def app_step_def app_finish_def Let_def
          split: fetch_outcome.splits option.splits)
  show ?thesis
    by (cases "trim tx = [] \<or> streaming (s_ui s)")
       (auto simp: r app_step_def sendMessage_def Let_def split: prod.splits)
qed

lemma assets_single_turn:
  "s_ui (assets_run P (Send (isCompact, override) # turn_actions (length (tasks s)) net) s)
     = fst (assets_sendMessage P isCompact net override (s_ui s))"
proof -
  define tx where "tx = trim (case override of None \<Rightarrow> input (s_ui s) | Some x \<Rightarrow> x)"
  show ?thesis
  proof (cases "tx = [] \<or> streaming (s_ui s)")
    case True
    then have 1: "assets_step P (Send (isCompact, override)) s = s"
      by (auto simp: assets_step_def tx_def)
    have 2: "assets_run P (turn_actions (length (tasks s)) net) s = s"
      using assets_run_not_reading [of "length (tasks s)" s P]
      by (auto simp: turn_actions_def assets_step_def split: fetch_outcome.splits option.splits)
    show ?thesis using True 1 2 by (auto simp: assets_sendMessage_def tx_def)
  next
    case False
    define i where "i = length (tasks s)"
    define L0 where "L0 = assets_turn_start isCompact tx (s_ui s)"
    define t0 where "t0 = \<lparr>t_text = tx, t_aid = GenId 0, t_phase = Fetching,
        t_buffer = [], t_reply = assistantReply L0, t_flag = hadError L0\<rparr>"
    define s1 where "s1 = assets_step P (Send (isCompact, override)) s"
    have s1: "s_ui s1 = ui_a L0" "tasks s1 = tasks s @ [t0]"
      using False by (simp_all add: s1_def assets_step_def Let_def L0_def t0_def tx_def)
    have i: "i < length (tasks s1)" "tasks s1 ! i = t0" by (simp_all add: s1 i_def)
    have L0_eq: "\<lparr>ui_a = ui_a L0, assistantReply = assistantReply L0, hadError = hadError L0\<rparr>
        = L0" by simp
    have sm: "fst (assets_sendMessage P isCompact net override (s_ui s)) =
        (case assets_try_block P net L0 of
           (L1, thrown) \<Rightarrow>
             assets_turn_end tx
               (case thrown of None \<Rightarrow> L1 | Some m \<Rightarrow> assets_catch_block m L1))"
      using False by (simp add: assets_sendMessage_def Let_def L0_def tx_def split: prod.splits)
    have fin: "s_ui (assets_finish i (Some m) s1) = assets_turn_end tx (assets_catch_block m L0)"
      for m
      by (simp add: assets_finish_def Let_def i) (simp add: s1 t0_def L0_eq)
    have dead: "assets_run P (map (Chunk i) cs @ [Ended i e]) (assets_finish i th s1)
        = assets_finish i th s1" for cs e th
      using i by (simp add: assets_run_not_reading assets_finish_phase)
    have run: "assets_run P (Send (isCompact, override) # turn_actions (length (tasks s)) net) s
        = assets_run P (turn_actions i net) s1"
      by (simp add: s1_def i_def)
    show ?thesis
    proof (cases net)
      case (FetchRejected m)
      then show ?thesis
        unfolding run sm
        by (simp add: turn_actions_def assets_try_block_def assets_step_def i t0_def
              fin [unfolded t0_def])
    next
      case (FetchResolved res)
      show ?thesis
      proof (cases "body res")
        case None
        then show ?thesis
          unfolding run sm using FetchResolved
          by (simp add: turn_actions_def assets_try_block_def assets_step_def i t0_def
                fin [unfolded t0_def])
      next
        case (Some b)
        obtain chunks e where b: "b = (chunks, e)" by (cases b)
        show ?thesis
        proof (cases "ok res")
          case False
          then show ?thesis
            unfolding run sm using FetchResolved Some b
            by (simp add: turn_actions_def assets_try_block_def assets_step_def i t0_def dead
                  fin [unfolded t0_def])
        next
          case True
          define s2 where "s2 = s1\<lparr>tasks := (tasks s1)[i := t0\<lparr>t_phase := Reading\<rparr>]\<rparr>"
          have s2: "i < length (tasks s2)" "tasks s2 ! i = t0\<lparr>t_phase := Reading\<rparr>"
            "s_ui s2 = ui_a L0"
            using i by (simp_all add: s2_def s1)
          have st: "assets_step P (Fetched i (Head True (status res) True)) s1 = s2"
            using i by (simp add: assets_step_def s2_def t0_def)
          have "s_ui (assets_run P (map (Chunk i) chunks @ [Ended i e]) s2) =
              (case assets_read_loop P chunks e [] L0 of
                 (L, thrown) \<Rightarrow>
                   assets_turn_end tx
                     (case thrown of None \<Rightarrow> L | Some m \<Rightarrow> assets_catch_block m L))"
            using assets_run_reading [of i s2 P chunks e] s2
            by (simp add: t0_def L0_eq cong: option.case_cong prod.case_cong)
          then show ?thesis
            unfolding run sm using FetchResolved Some b True st
            by (simp add: turn_actions_def assets_try_block_def)
        qed
      qed
    qed
  qed
qed

section \<open>Turns that overlap\<close>

lemma switch_event_streaming [simp]:
  "streaming (ui (switch_event aid ev L)) = streaming (ui L)"
  by (simp add: switch_event_def Let_def)

lemma try_frame_streaming [simp]:
  "streaming (ui (try_frame P aid line L)) = streaming (ui L)"
  by (simp add: try_frame_def split: option.splits)

lemma for_lines_streaming [simp]:
  "streaming (ui (for_lines P aid ls L)) = streaming (ui L)"
  by (induction ls arbitrary: L) (simp_all add: Let_def)

lemma clearConversation_streaming [simp]:
  "streaming (clearConversation st) = streaming st"
  by (simp add: clearConversation_def alloc_def)

lemma one_turn_only:
  assumes "one_turn_at_a_time s" "i < length (tasks s)" "t_phase (tasks s ! i) \<noteq> Finished"
  shows "streaming (s_ui s)"
    and "\<forall>j<length (tasks s). j \<noteq> i \<longrightarrow> t_phase (tasks s ! j) = Finished"
  using assms unfolding one_turn_at_a_time_def by blast+

lemma one_turn_all_finished:
  "\<forall>j<length (tasks s). t_phase (tasks s ! j) = Finished \<Longrightarrow> one_turn_at_a_time s"
  by (simp add: one_turn_at_a_time_def)

lemma one_turn_app_finish:
  assumes "\<forall>j<length (tasks s). j \<noteq> i \<longrightarrow> t_phase (tasks s ! j) = Finished"
  shows "one_turn_at_a_time (app_finish i th s)"
proof (rule one_turn_all_finished, intro allI impI)
  fix j assume "j < length (tasks (app_finish i th s))"
  then have j: "j < length (tasks s)" by simp
  show "t_phase (tasks (app_finish i th s) ! j) = Finished"
    using assms j by (cases "j = i") (simp_all add: app_finish_def Let_def)
qed

lemma one_turn_update:
  assumes "\<forall>j<length (tasks s). j \<noteq> i \<longrightarrow> t_phase (tasks s ! j) = Finished"
    and "streaming st'"
  shows "one_turn_at_a_time (s\<lparr>s_ui := st', tasks := (tasks s)[i := t]\<rparr>)"
  using assms by (simp add: one_turn_at_a_time_def) (metis nth_list_update_neq)

text \<open>
  \<^verbatim>\<open>App.jsx\<close>: no step sets \<^verbatim>\<open>streaming\<close> back while a call is under way, so calls never
  overlap.
\<close>

lemma app_step_one_turn:
  assumes "one_turn_at_a_time s"
  shows "one_turn_at_a_time (app_step P a s)"
proof (cases a)
  case (Send arg)
  show ?thesis
  proof (cases "trim (snd arg) = [] \<or> streaming (s_ui s)")
    case True
    then show ?thesis using assms Send by (auto simp: app_step_def)
  next
    case False
    then have fin: "\<forall>j<length (tasks s). t_phase (tasks s ! j) = Finished"
      using assms unfolding one_turn_at_a_time_def by blast
    show ?thesis
      using False fin Send
      by (auto simp: app_step_def Let_def one_turn_at_a_time_def nth_append turn_start_def)
  qed
next
  case Clear
  then show ?thesis using assms by (simp add: app_step_def one_turn_at_a_time_def)
next
  case (Fetched i h)
  show ?thesis
  proof (cases "i < length (tasks s) \<and> t_phase (tasks s ! i) = Fetching")
    case False
    then show ?thesis using assms Fetched by (auto simp: app_step_def)
  next
    case True
    then have o: "streaming (s_ui s)"
      "\<forall>j<length (tasks s). j \<noteq> i \<longrightarrow> t_phase (tasks s ! j) = Finished"
      using one_turn_only [OF assms, of i] by auto
    have u: "one_turn_at_a_time (s\<lparr>tasks := (tasks s)[i := (tasks s ! i)\<lparr>t_phase := Reading\<rparr>]\<rparr>)"
      using one_turn_update [OF o(2) o(1), of "(tasks s ! i)\<lparr>t_phase := Reading\<rparr>"] by simp
    show ?thesis
      using True Fetched one_turn_app_finish [OF o(2)] u
      by (auto simp: app_step_def split: head.splits)
  qed
next
  case (Chunk i v)
  show ?thesis
  proof (cases "i < length (tasks s) \<and> t_phase (tasks s ! i) = Reading")
    case False
    then show ?thesis using assms Chunk by (auto simp: app_step_def)
  next
    case True
    then have o: "streaming (s_ui s)"
      "\<forall>j<length (tasks s). j \<noteq> i \<longrightarrow> t_phase (tasks s ! j) = Finished"
      using one_turn_only [OF assms, of i] by auto
    define t where "t = tasks s ! i"
    define lines where "lines = split_lines (t_buffer t @ v)"
    define L where "L = for_lines P (t_aid t) (butlast lines)
        \<lparr>ui = s_ui s, finalContent = t_reply t, doneSignal = t_flag t\<rparr>"
    define s' where "s' = s\<lparr>s_ui := ui L,
        tasks := (tasks s)[i := t\<lparr>t_buffer := last lines, t_reply := finalContent L,
                                  t_flag := doneSignal L\<rparr>]\<rparr>"
    have st: "streaming (ui L)" using o(1) by (simp add: L_def)
    have 1: "one_turn_at_a_time s'"
      unfolding s'_def by (rule one_turn_update [OF o(2) st])
    have "\<forall>j<length (tasks s'). j \<noteq> i \<longrightarrow> t_phase (tasks s' ! j) = Finished"
      using o(2) by (simp add: s'_def)
    then have 2: "one_turn_at_a_time (app_finish i None s')"
      by (rule one_turn_app_finish)
    have "app_step P (Chunk i v) s = (if doneSignal L then app_finish i None s' else s')"
      using True by (simp add: app_step_def Let_def s'_def L_def lines_def t_def)
    then show ?thesis using 1 2 Chunk by simp
  qed
next
  case (Ended i e)
  show ?thesis
  proof (cases "i < length (tasks s) \<and> t_phase (tasks s ! i) = Reading")
    case False
    then show ?thesis using assms Ended by (auto simp: app_step_def)
  next
    case True
    then have o: "\<forall>j<length (tasks s). j \<noteq> i \<longrightarrow> t_phase (tasks s ! j) = Finished"
      using one_turn_only [OF assms, of i] by auto
    show ?thesis
      using True Ended one_turn_app_finish [OF o]
      by (auto simp: app_step_def split: stream_end.splits)
  qed
qed

lemma app_run_one_turn:
  "one_turn_at_a_time s \<Longrightarrow> one_turn_at_a_time (app_run P as s)"
  by (induction as arbitrary: s) (simp_all add: app_step_one_turn)

lemma one_turn_init: "one_turn_at_a_time sys_init"
  by (simp add: one_turn_at_a_time_def sys_init_def)

lemma in_flight_mem:
  "i \<in> set (in_flight s) \<longleftrightarrow> i < length (tasks s) \<and> t_phase (tasks s ! i) \<noteq> Finished"
  by (auto simp: in_flight_def)

text \<open>
  \<^verbatim>\<open>App.jsx\<close>, in every state the component can reach: at most one call is under way,
  and a call of \<^verbatim>\<open>sendMessage\<close> while one is under way changes nothing and issues no
  request.
\<close>

lemma app_send_during_turn:
  assumes "in_flight (app_run P as sys_init) \<noteq> []"
  shows "app_step P (Send arg) (app_run P as sys_init) = app_run P as sys_init"
proof -
  obtain i where "i \<in> set (in_flight (app_run P as sys_init))"
    using assms by (cases "in_flight (app_run P as sys_init)") auto
  then have "streaming (s_ui (app_run P as sys_init))"
    using one_turn_only(1) [OF app_run_one_turn [OF one_turn_init]] in_flight_mem by blast
  then show ?thesis by (simp add: app_step_def)
qed

lemma app_at_most_one_in_flight: "length (in_flight (app_run P as sys_init)) \<le> 1"
proof -
  define s where "s = app_run P as sys_init"
  have inv: "one_turn_at_a_time s" unfolding s_def by (rule app_run_one_turn [OF one_turn_init])
  have d: "distinct (in_flight s)" by (simp add: in_flight_def)
  have eq: "x = y" if "x \<in> set (in_flight s)" "y \<in> set (in_flight s)" for x y
    using inv that by (auto simp: in_flight_mem one_turn_at_a_time_def)
  have "length (in_flight s) \<le> 1"
  proof (cases "in_flight s")
    case Nil
    then show ?thesis by simp
  next
    case outer: (Cons x xs)
    have "xs = []"
    proof (cases xs)
      case Nil
      then show ?thesis .
    next
      case (Cons y ys)
      then have "x = y" using eq [of x y] outer by simp
      then show ?thesis using d outer Cons by simp
    qed
    then show ?thesis using outer by simp
  qed
  then show ?thesis by (simp add: s_def)
qed

text \<open>
  Claim C10. In \<^verbatim>\<open>assets/app.jsx\<close> a call of \<^verbatim>\<open>sendMessage\<close> while the previous turn is
  still streaming is not always without effect: after a click on "New conversation",
  which clears the flag \<^verbatim>\<open>streaming\<close> and leaves the reader of the first turn running,
  the second call passes the guard and issues a request while task 0 still reads its
  stream. In \<^verbatim>\<open>App.jsx\<close> the same steps leave the second call without effect.
\<close>

theorem assets_send_while_previous_turn_streams:
  "map t_phase (tasks (assets_run example_parse
       [Send (False, Some ''first''), Fetched 0 (Head True 200 True), Clear] sys_init))
     = [Reading]
   \<and> streaming (s_ui (assets_run example_parse
       [Send (False, Some ''first''), Fetched 0 (Head True 200 True), Clear] sys_init))
     = False
   \<and> map req_message (requests (assets_run example_parse
       [Send (False, Some ''first''), Fetched 0 (Head True 200 True), Clear,
        Send (False, Some ''second'')] sys_init))
     = [''first'', ''second'']
   \<and> map t_phase (tasks (assets_run example_parse
       [Send (False, Some ''first''), Fetched 0 (Head True 200 True), Clear,
        Send (False, Some ''second'')] sys_init))
     = [Reading, Fetching]
   \<and> map content (messages (s_ui (assets_run example_parse
       [Send (False, Some ''first''), Fetched 0 (Head True 200 True), Clear,
        Send (False, Some ''second'')] sys_init)))
     = [Some (JStr ''second'')]
   \<and> app_run example_parse
       [Send (0, ''first''), Fetched 0 (Head True 200 True), Clear, Send (1, ''second'')] sys_init
     = app_run example_parse
       [Send (0, ''first''), Fetched 0 (Head True 200 True), Clear] sys_init
   \<and> map req_message (requests (app_run example_parse
       [Send (0, ''first''), Fetched 0 (Head True 200 True), Clear, Send (1, ''second'')] sys_init))
     = [''first'']"
  by code_simp

text \<open>
  Claim C6. In \<^verbatim>\<open>assets/app.jsx\<close> the trace list of a turn is not always its own: when a
  second turn has started while the first still streams (after "New conversation"), the
  second turn starts with an empty list, a \<^verbatim>\<open>tool_call\<close> frame of the first turn then
  adds an entry to that list, and a \<^verbatim>\<open>tool_result\<close> frame of the second turn resolves
  the entry of the first. In \<^verbatim>\<open>App.jsx\<close> the second call is without effect, and the list
  holds the first turn's entry only.
\<close>

theorem assets_overlapping_turns_share_traces:
  "traces (s_ui (assets_run example_parse
       [Send (False, Some ''first''), Fetched 0 (Head True 200 True), Clear,
        Send (False, Some ''second''), Fetched 1 (Head True 200 True)] sys_init))
     = []
   \<and> map t_phase (tasks (assets_run example_parse
       [Send (False, Some ''first''), Fetched 0 (Head True 200 True), Clear,
        Send (False, Some ''second''), Fetched 1 (Head True 200 True)] sys_init))
     = [Reading, Reading]
   \<and> map resolved (traces (s_ui (assets_run example_parse
       [Send (False, Some ''first''), Fetched 0 (Head True 200 True), Clear,
        Send (False, Some ''second''), Fetched 1 (Head True 200 True),
        Chunk 0 (call_line @ [CHR 0x0A])] sys_init)))
     = [False]
   \<and> map (\<lambda>t. (type t, resolved t, itemCount t)) (traces (s_ui (assets_run example_parse
       [Send (False, Some ''first''), Fetched 0 (Head True 200 True), Clear,
        Send (False, Some ''second''), Fetched 1 (Head True 200 True),
        Chunk 0 (call_line @ [CHR 0x0A]), Chunk 1 (result_line @ [CHR 0x0A])] sys_init)))
     = [(''tool_call'', True, Some (JNum 5))]
   \<and> map t_phase (tasks (app_run example_parse
       [Send (0, ''first''), Fetched 0 (Head True 200 True), Clear,
        Send (1, ''second''), Fetched 1 (Head True 200 True),
        Chunk 0 (call_line @ [CHR 0x0A]), Chunk 1 (result_line @ [CHR 0x0A])] sys_init))
     = [Reading]
   \<and> map (\<lambda>t. (type t, resolved t, itemCount t)) (traces (s_ui (app_run example_parse
       [Send (0, ''first''), Fetched 0 (Head True 200 True), Clear,
        Send (1, ''second''), Fetched 1 (Head True 200 True),
        Chunk 0 (call_line @ [CHR 0x0A]), Chunk 1 (result_line @ [CHR 0x0A])] sys_init)))
     = [(''call'', False, None)]"
  by code_simp

section \<open>The reply of a turn\<close>

lemma try_frame_not_done:
  "\<not> frame_of_type P ''done'' line \<Longrightarrow> startsWith line ''data: '' \<Longrightarrow>
   doneSignal (try_frame P aid line L) = doneSignal L"
  by (auto simp: try_frame_def frame_of_type_def switch_event_def Let_def split: option.splits)

lemma for_lines_not_done:
  "list_all (\<lambda>l. \<not> frame_of_type P ''done'' l) ls \<Longrightarrow> \<not> doneSignal L \<Longrightarrow>
   \<not> doneSignal (for_lines P aid ls L)"
proof (induction ls arbitrary: L)
  case Nil
  then show ?case by simp
next
  case (Cons l ls)
  then show ?case
    using try_frame_not_done [of P l aid L] by (auto simp: Let_def)
qed

text \<open>
  \<^verbatim>\<open>App.jsx\<close>: the reply is the content of the last \<^verbatim>\<open>message\<close> frame, when no \<^verbatim>\<open>done\<close>
  frame comes before it.
\<close>

lemma for_lines_last_message:
  assumes "\<not> doneSignal L" "list_all (\<lambda>l. \<not> frame_of_type P ''done'' l) pre"
    and "startsWith m ''data: ''" "P (drop 6 m) = Some ev"
    and "getprop ev ''type'' = Some (JStr ''message'')"
    and "list_all (\<lambda>l. \<not> frame_of_type P ''message'' l) post"
  shows "finalContent (for_lines P aid (pre @ m # post) L) = getprop ev ''content''"
proof -
  define L1 where "L1 = for_lines P aid pre L"
  have n1: "\<not> doneSignal L1" unfolding L1_def by (rule for_lines_not_done [OF assms(2,1)])
  have ev: "ev \<noteq> JNull" using assms(5) by auto
  define L2 where "L2 = try_frame P aid m L1"
  have f2: "finalContent L2 = getprop ev ''content''"
    using assms(4,5) ev by (simp add: L2_def try_frame_def switch_event_def Let_def)
  have "for_lines P aid (pre @ m # post) L = for_lines P aid (m # post) L1"
    using for_lines_append [OF assms(1), of P aid pre "m # post"] n1
    by (simp only: L1_def Let_def if_False)
  also have "\<dots> = (if doneSignal L2 then L2 else for_lines P aid post L2)"
    using assms(3) by (simp add: L2_def Let_def)
  finally show ?thesis
    using f2 for_lines_final [OF assms(6), of aid L2] by simp
qed

lemma turn_reply_last_message:
  assumes "stream_lines chunks = pre @ m # post"
    and "list_all (\<lambda>l. \<not> frame_of_type P ''done'' l) pre"
    and "startsWith m ''data: ''" "P (drop 6 m) = Some ev"
    and "getprop ev ''type'' = Some (JStr ''message'')"
    and "list_all (\<lambda>l. \<not> frame_of_type P ''message'' l) post"
  shows "turn_reply P now (FetchResolved (Response True code (Some (chunks, e)))) tx st
     = getprop ev ''content''"
proof -
  have n: "\<not> doneSignal (turn_start now (trim tx) st)" by (simp add: turn_start_def)
  show ?thesis
    using read_loop_lines [OF n, of "[]" P "AssistantId now" chunks e]
      for_lines_last_message [OF n assms(2-6), of "AssistantId now"] assms(1)
    by (simp add: turn_reply_def try_block_def stream_lines_def)
qed

end
